theory Spec2Isabelle
  imports Main "HOL-Library.Sublist" "HOL-Library.AList" "HOL-Library.Multiset"
begin

text \<open>
  A shallow embedding of \<^verbatim>\<open>pkg/fqtest/fqtest.go\<close>, the transcript parser and replay
  harness of fq's tests: the escape decoder \<open>Unescape\<close>, the dialog simulator \<open>Readline\<close>
  with the environment of an invocation, the section splitter \<open>SectionParser\<close>, the
  model builder \<open>parseTestCases\<close>, and the two renderings \<open>ToExpectedStdout\<close> and
  \<open>ToActual\<close>. The definitions come first, then lemmas about them, then the claims of
  the specification, each with its theorem.
\<close>

section \<open>Strings as byte lists\<close>

text \<open>
  A Go \<open>string\<close> is a sequence of bytes; it is modelled as \<open>string\<close> (a list of 8-bit
  \<open>char\<close>s). \<open>len\<close> is \<open>length\<close>, \<open>s[i:]\<close> is \<open>drop i s\<close>, \<open>s[:i]\<close> is \<open>take i s\<close>,
  \<open>strings.HasPrefix(s, p)\<close> is \<open>prefix p s\<close> and \<open>strings.HasSuffix(s, p)\<close> is
  \<open>suffix p s\<close>.
\<close>

abbreviation BSL :: char where "BSL \<equiv> CHR 0x5C"
abbreviation NL :: char where "NL \<equiv> CHR 0x0A"
abbreviation CR :: char where "CR \<equiv> CHR 0x0D"
abbreviation TAB :: char where "TAB \<equiv> CHR 0x09"
abbreviation BS :: char where "BS \<equiv> CHR 0x08"

section \<open>Unescape\<close>

subsection \<open>Library functions used by Unescape\<close>

text \<open>
  Go's \<open>encoding/hex\<close>: \<open>fromHexChar\<close> accepts \<open>0-9\<close>, \<open>a-f\<close> and \<open>A-F\<close>.
  \<open>hex.DecodeString\<close> decodes pairs of digits from the left and stops at the first
  invalid digit, returning the bytes decoded so far together with the error.
\<close>

datatype hex_error = InvalidByteError char | ErrLength

definition fromHexChar :: "char \<Rightarrow> nat option" where
  "fromHexChar c =
     (let n = (of_char c :: nat) in
      if 0x30 \<le> n \<and> n \<le> 0x39 then Some (n - 0x30)
      else if 0x61 \<le> n \<and> n \<le> 0x66 then Some (n - 0x61 + 10)
      else if 0x41 \<le> n \<and> n \<le> 0x46 then Some (n - 0x41 + 10)
      else None)"

fun hex_DecodeString :: "string \<Rightarrow> string \<times> hex_error option" where
  "hex_DecodeString [] = ([], None)"
| "hex_DecodeString [a] =
     (case fromHexChar a of
        None \<Rightarrow> ([], Some (InvalidByteError a))
      | Some _ \<Rightarrow> ([], Some ErrLength))"
| "hex_DecodeString (a # b # rest) =
     (case fromHexChar a of
        None \<Rightarrow> ([], Some (InvalidByteError a))
      | Some x \<Rightarrow>
         (case fromHexChar b of
            None \<Rightarrow> ([], Some (InvalidByteError b))
          | Some y \<Rightarrow>
             (case hex_DecodeString rest of
                (bs, e) \<Rightarrow> (char_of (16 * x + y) # bs, e))))"

text \<open>
  Modelled from the spec: \<open>bitio.BytesFromBitString\<close> (package \<open>pkg/bitio\<close> is not among
  the sources). The spec says that a run of exactly 8 binary digits "decodes that
  bit-string to one byte"; the digits are read most significant bit first. Unescape
  discards the second result of the call and only ever passes 8 binary digits.
\<close>

definition bitsToNat :: "string \<Rightarrow> nat" where
  "bitsToNat bs = foldl (\<lambda>acc c. 2 * acc + (if c = CHR ''1'' then 1 else 0)) 0 bs"

definition BytesFromBitString :: "string \<Rightarrow> string" where
  "BytesFromBitString s = [char_of (bitsToNat s)]"

subsection \<open>The regular expression and the replacement\<close>

text \<open>
  \<open>unescapeRe\<close> is \<^verbatim>\<open>\\(?:t|b|n|r|0(?:b[01]{8}|x[0-f]{2}))\<close>. The class \<open>[01]\<close> is
  \<open>isBinDigit\<close>; the class \<open>[0-f]\<close> is the byte range from \<open>0\<close> (0x30) to \<open>f\<close> (0x66),
  which holds the hex digits of both cases and also \<open>: ; < = > ? @ G-Z [ \ ] ^ _ `\<close>.
  \<open>unescapeReMatch s\<close> is the text the expression matches at the start of \<open>s\<close>, if any.
\<close>

definition isBinDigit :: "char \<Rightarrow> bool" where
  "isBinDigit c \<longleftrightarrow> c = CHR ''0'' \<or> c = CHR ''1''"

definition inRange0f :: "char \<Rightarrow> bool" where
  "inRange0f c \<longleftrightarrow> 0x30 \<le> (of_char c :: nat) \<and> (of_char c :: nat) \<le> 0x66"

definition unescapeReMatch :: "string \<Rightarrow> string option" where
  "unescapeReMatch s =
     (case s of
        b # c # rest \<Rightarrow>
          if b \<noteq> BSL then None
          else if c = CHR ''t'' \<or> c = CHR ''b'' \<or> c = CHR ''n'' \<or> c = CHR ''r''
            then Some [b, c]
          else if c = CHR ''0'' then
            (case rest of
               k # ds \<Rightarrow>
                 if k = CHR ''b'' \<and> 8 \<le> length ds \<and> list_all isBinDigit (take 8 ds)
                   then Some (take 11 s)
                 else if k = CHR ''x'' \<and> 2 \<le> length ds \<and> list_all inRange0f (take 2 ds)
                   then Some (take 5 s)
                 else None
             | [] \<Rightarrow> None)
          else None
      | _ \<Rightarrow> None)"

text \<open>The function literal passed to \<open>ReplaceAllStringFunc\<close>, with its switch.\<close>

definition unescapeFn :: "string \<Rightarrow> string" where
  "unescapeFn r =
     (if r = [BSL, CHR ''n''] then [NL]
      else if r = [BSL, CHR ''r''] then [CR]
      else if r = [BSL, CHR ''t''] then [TAB]
      else if r = [BSL, CHR ''b''] then [BS]
      else if prefix [BSL, CHR ''0'', CHR ''b''] r then BytesFromBitString (drop 3 r)
      else if prefix [BSL, CHR ''0'', CHR ''x''] r then fst (hex_DecodeString (drop 3 r))
      else r)"

lemma unescapeReMatch_length:
  "unescapeReMatch s = Some r \<Longrightarrow> 2 \<le> length r \<and> r = take (length r) s"
  by (auto simp: unescapeReMatch_def split: list.splits if_splits)

text \<open>
  \<open>ReplaceAllStringFunc\<close> scans from the left: at the leftmost position where the
  expression matches, the match is replaced by the function's result and the scan goes on
  after the match; bytes where nothing matches are copied.
\<close>

function Unescape :: "string \<Rightarrow> string" where
  "Unescape [] = []"
| "Unescape (c # cs) =
     (case unescapeReMatch (c # cs) of
        Some r \<Rightarrow> unescapeFn r @ Unescape (drop (length r) (c # cs))
      | None \<Rightarrow> c # Unescape cs)"
  by pat_completeness auto
termination
proof (relation "measure length")
  fix c cs r
  assume "unescapeReMatch (c # cs) = Some r"
  then have "2 \<le> length r" by (rule unescapeReMatch_length [THEN conjunct1])
  then show "(drop (length r) (c # cs), c # cs) \<in> measure length" by simp
qed simp_all

section \<open>Invocations and dialog turns\<close>

text \<open>
  \<open>testCaseReadline\<close> is one dialog turn. Its fields carry the prefix \<open>rl_\<close> because
  \<open>testCaseRun\<close> has fields of the same names (\<open>env\<close>, \<open>expectedStdout\<close>).
\<close>

record testCaseReadline =
  rl_expr :: string
  rl_env :: "string list"
  rl_input :: string
  rl_expectedPrompt :: string
  rl_expectedStdout :: string

text \<open>
  \<open>testCaseRun\<close> is one invocation. The two \<open>bytes.Buffer\<close>s are the strings written so
  far (\<open>WriteString\<close> appends). The back pointer \<open>testCase\<close>, used only by \<open>FS\<close>, is left
  out.
\<close>

record testCaseRun =
  lineNr :: int
  command :: string
  env :: "string list"
  args :: "string list"
  stdin :: string
  expectedStdout :: string
  expectedStderr :: string
  expectedExitCode :: int
  actualStdoutBuf :: string
  actualStderrBuf :: string
  actualExitCode :: int
  readlines :: "testCaseReadline list"
  readlinesPos :: nat
  readlineEnv :: "string list"

subsection \<open>Environ and getEnv\<close>

text \<open>\<open>strings.IndexByte\<close>: the index of the first occurrence, or -1.\<close>

fun IndexByte :: "string \<Rightarrow> char \<Rightarrow> int" where
  "IndexByte [] c = -1"
| "IndexByte (x # xs) c =
     (if x = c then 0 else (let i = IndexByte xs c in if i < 0 then -1 else i + 1))"

definition defaultEnv :: "string list" where
  "defaultEnv =
     [''_STDIN_WIDTH=135'', ''_STDIN_HEIGHT=25'', ''_STDOUT_WIDTH=135'',
      ''_STDOUT_HEIGHT=25'', ''_STDOUT_ISTERMINAL=1'', ''NO_COLOR=1'',
      ''NO_DECODE_PROGRESS=1'']"

text \<open>
  The first loop of \<open>Environ\<close>: \<open>envm[kv[:i]] = kv[i+1:]\<close> for every entry with an \<open>=\<close>
  at an index \<open>i > 0\<close>. The Go map is an association list with one pair per key.
\<close>

definition envmStore :: "(string \<times> string) list \<Rightarrow> string \<Rightarrow> (string \<times> string) list" where
  "envmStore envm kv =
     (let i = IndexByte kv (CHR ''='') in
      if i > 0 then AList.update (take (nat i) kv) (drop (nat i + 1) kv) envm else envm)"

definition envmOf :: "string list \<Rightarrow> (string \<times> string) list" where
  "envmOf kvs = foldl envmStore [] kvs"

text \<open>
  The second loop of \<open>Environ\<close> ranges over the Go map, whose iteration order is not
  specified; the model lists the keys in the order of their first assignment. The result
  of \<open>getEnv\<close> does not depend on that order (lemma \<open>getEnv_map_of\<close> below).
\<close>

definition Environ :: "testCaseRun \<Rightarrow> string list" where
  "Environ tcr =
     map (\<lambda>(k, v). k @ ''='' @ v) (envmOf (defaultEnv @ env tcr @ readlineEnv tcr))"

definition getEnv :: "testCaseRun \<Rightarrow> string \<Rightarrow> string" where
  "getEnv tcr name =
     (case find (\<lambda>kv. prefix (name @ ''='') kv) (Environ tcr) of
        Some kv \<Rightarrow> drop (length name + 1) kv
      | None \<Rightarrow> '''')"

text \<open>No key of the Go map holds an \<open>=\<close>: a key is the text before the first one.\<close>

definition keysOk :: "(string \<times> string) list \<Rightarrow> bool" where
  "keysOk m \<longleftrightarrow> (\<forall>k \<in> set (map fst m). CHR ''='' \<notin> set k)"

subsection \<open>Readline\<close>

datatype error = EOF

text \<open>
  \<open>Readline\<close> returns the pair \<open>(string, error)\<close> of the source (\<open>None\<close> is \<open>nil\<close>) and the
  receiver as the call leaves it. \<open>complete\<close> is the tool's completion function, a
  parameter here as in the source; it is taken to be a function of its arguments, and
  only its first result is used.
\<close>

definition Readline ::
  "testCaseRun \<Rightarrow> string \<Rightarrow> (string \<Rightarrow> int \<Rightarrow> string list \<times> int)
     \<Rightarrow> (string \<times> error option) \<times> testCaseRun" where
  "Readline tcr prompt complete =
     (let tcr1 = tcr\<lparr>actualStdoutBuf := actualStdoutBuf tcr @ prompt\<rparr> in
      if readlinesPos tcr1 \<ge> length (readlines tcr1) then (('''', Some EOF), tcr1)
      else
        let rl = readlines tcr1 ! readlinesPos tcr1;
            expr = rl_expr rl;
            lineRaw = rl_input rl;
            line = Unescape lineRaw;
            tcr2 = tcr1\<lparr>readlineEnv := rl_env rl, readlinesPos := readlinesPos tcr1 + 1\<rparr>
        in
          if suffix [TAB] line then
            let tcr3 = tcr2\<lparr>actualStdoutBuf := actualStdoutBuf tcr2 @ lineRaw @ [NL]\<rparr>;
                l = int (length line) - 1;
                newLine = fst (complete (take (nat l) line) l);
                tcr4 = tcr3\<lparr>actualStdoutBuf :=
                         actualStdoutBuf tcr3 @ concat (map (\<lambda>nl. nl @ [NL]) newLine)\<rparr>
            in (('''', None), tcr4)
          else
            let tcr3 = tcr2\<lparr>actualStdoutBuf := actualStdoutBuf tcr2 @ expr @ [NL]\<rparr> in
            if line = ''^D'' then (('''', Some EOF), tcr3)
            else ((line, None), tcr3))"

subsection \<open>Turns and sessions\<close>

text \<open>
  \<open>turnEcho complete rl\<close> is what a call that consumes the turn \<open>rl\<close> writes to the
  captured stdout after the prompt.
\<close>

definition turnEcho :: "(string \<Rightarrow> int \<Rightarrow> string list \<times> int) \<Rightarrow> testCaseReadline \<Rightarrow> string" where
  "turnEcho complete rl =
     (let line = Unescape (rl_input rl) in
      if suffix [TAB] line
      then rl_input rl @ [NL] @
           concat (map (\<lambda>nl. nl @ [NL]) (fst (complete (butlast line) (int (length (butlast line))))))
      else rl_expr rl @ [NL])"

text \<open>
  A dialog session as the tool drives it: one call of \<open>Readline\<close> per prompt, in order,
  until a call returns an error. The result is the number of calls made and the
  invocation as the last call leaves it.
\<close>

fun driveReadline ::
  "testCaseRun \<Rightarrow> string list \<Rightarrow> (string \<Rightarrow> int \<Rightarrow> string list \<times> int) \<Rightarrow> nat \<times> testCaseRun" where
  "driveReadline tcr [] complete = (0, tcr)"
| "driveReadline tcr (p # ps) complete =
     (case Readline tcr p complete of
        ((line, Some e), tcr') \<Rightarrow> (1, tcr')
      | ((line, None), tcr') \<Rightarrow>
          (case driveReadline tcr' ps complete of (n, tcr'') \<Rightarrow> (Suc n, tcr'')))"

text \<open>The decoded literal input of the turn the next call of \<open>Readline\<close> consumes.\<close>

definition nextLine :: "testCaseRun \<Rightarrow> string" where
  "nextLine tcr = Unescape (rl_input (readlines tcr ! readlinesPos tcr))"

subsection \<open>Values for the examples\<close>

text \<open>Concrete completion functions, turns and invocations.\<close>

definition noComplete :: "string \<Rightarrow> int \<Rightarrow> string list \<times> int" where
  "noComplete line pos = ([], 0)"

definition exampleComplete :: "string \<Rightarrow> int \<Rightarrow> string list \<times> int" where
  "exampleComplete line pos = (if line = ''fo'' \<and> pos = 2 then [''foo'', ''for''] else [], 0)"

definition mkTurn :: "string \<Rightarrow> string list \<Rightarrow> string \<Rightarrow> testCaseReadline" where
  "mkTurn e ev i =
     \<lparr>rl_expr = e, rl_env = ev, rl_input = i, rl_expectedPrompt = ''> '', rl_expectedStdout = ''''\<rparr>"

definition mkRun :: "testCaseReadline list \<Rightarrow> testCaseRun" where
  "mkRun rls =
     \<lparr>lineNr = 1, command = '' fq -i'', env = [], args = [''fq'', ''-i''], stdin = '''',
      expectedStdout = '''', expectedStderr = '''', expectedExitCode = 0,
      actualStdoutBuf = '''', actualStderrBuf = '''', actualExitCode = 0,
      readlines = rls, readlinesPos = 0, readlineEnv = []\<rparr>"

section \<open>SectionParser\<close>

record Section =
  LineNr :: int
  Name :: string
  Value :: string

text \<open>\<open>strings.Split(s, "\n")\<close>: the pieces between the newlines, at least one piece.\<close>

fun splitLines :: "string \<Rightarrow> string list" where
  "splitLines [] = [[]]"
| "splitLines (c # cs) =
     (if c = NL then [] # splitLines cs
      else (case splitLines cs of l # ls \<Rightarrow> (c # l) # ls | [] \<Rightarrow> [[c]]))"

text \<open>The lines the loop ranges over: the last piece is skipped when it is empty.\<close>

definition linesOf :: "string \<Rightarrow> string list" where
  "linesOf s =
     (let lines = splitLines s in if last lines = [] then butlast lines else lines)"

definition firstMatch :: "string list \<Rightarrow> (string \<Rightarrow> bool) \<Rightarrow> string" where
  "firstMatch ss fn = (case find fn ss of Some s \<Rightarrow> s | None \<Rightarrow> '''')"

text \<open>
  The regular expression is a parameter, as in the source: \<open>re l\<close> is the result of
  \<open>re.FindStringSubmatch(l)\<close>, the empty list when \<open>l\<close> does not match and the match
  followed by the submatches otherwise. The loop state is the line counter and the
  sections; \<open>cs\<close> points to the last section (it is \<open>nil\<close> exactly when there is none).
\<close>

definition sectionStep ::
  "(string \<Rightarrow> string list) \<Rightarrow> int \<times> Section list \<Rightarrow> string \<Rightarrow> int \<times> Section list" where
  "sectionStep re st l =
     (let lineNr = fst st + 1; sections = snd st; sm = re l in
      if sections = [] \<or> length sm > 0
      then (lineNr,
            sections @ [\<lparr>LineNr = lineNr, Name = firstMatch sm (\<lambda>s. length s \<noteq> 0), Value = ''''\<rparr>])
      else (lineNr,
            butlast sections @
            [(last sections)\<lparr>Value := Value (last sections) @ l @ [NL]\<rparr>]))"

definition SectionParser :: "(string \<Rightarrow> string list) \<Rightarrow> string \<Rightarrow> Section list" where
  "SectionParser re s = snd (foldl (sectionStep re) (0, []) (linesOf s))"

subsection \<open>The boundary expression of parseTestCases\<close>

text \<open>
  The expression is
  \<^verbatim>\<open>^\$ .*$|^stdin:$|^stderr:$|^exitcode:.*$|^#.*$|^/.*:|^[^<:|]+>.*$\<close>.
  It has no group, so a match is the one-element list of the matched text. It is applied
  to lines only, which hold no newline, so \<open>.*$\<close> takes the rest of the line. All
  alternatives are anchored at the start and the first alternative that matches wins.
  Every alternative but \<^verbatim>\<open>^/.*:\<close> matches the whole line; that one matches up to the
  last colon. \<^verbatim>\<open>^[^<:|]+>.*$\<close> needs a \<open>>\<close> at an index of at least 1 with none of
  \<open><\<close>, \<open>:\<close>, \<open>|\<close> before it.
\<close>

definition promptLine :: "string \<Rightarrow> bool" where
  "promptLine l \<longleftrightarrow>
     CHR ''>'' \<in> set (tl (takeWhile (\<lambda>c. c \<noteq> CHR ''<'' \<and> c \<noteq> CHR '':'' \<and> c \<noteq> CHR ''|'') l))"

definition LastIndexByte :: "string \<Rightarrow> char \<Rightarrow> int" where
  "LastIndexByte s c =
     (let i = IndexByte (rev s) c in if i < 0 then -1 else int (length s) - 1 - i)"

definition boundaryRe :: "string \<Rightarrow> string list" where
  "boundaryRe l =
     (if prefix ''$ '' l then [l]
      else if l = ''stdin:'' then [l]
      else if l = ''stderr:'' then [l]
      else if prefix ''exitcode:'' l then [l]
      else if prefix ''#'' l then [l]
      else if prefix ''/'' l \<and> CHR '':'' \<in> set (tl l)
        then [take (nat (LastIndexByte l (CHR '':'')) + 1) l]
      else if promptLine l then [l]
      else [])"

subsection \<open>Putting the sections together again\<close>

text \<open>
  The text a list of sections stands for, in the words of the spec: for each section its
  header line and a newline, then its body; the header line is left out for a first
  section with an empty header.
\<close>

definition sectionText :: "Section \<Rightarrow> string" where
  "sectionText sec = Name sec @ [NL] @ Value sec"

fun reassemble :: "Section list \<Rightarrow> string" where
  "reassemble [] = []"
| "reassemble (sec # secs) =
     (if Name sec = [] then Value sec else sectionText sec) @ concat (map sectionText secs)"

text \<open>
  The expression matches the line \<open>l\<close> as a whole: the header \<open>SectionParser\<close> records for
  it (the first non-empty element of the match) is the line itself.
\<close>

definition wholeLineMatch :: "(string \<Rightarrow> string list) \<Rightarrow> string \<Rightarrow> bool" where
  "wholeLineMatch re l \<longleftrightarrow> l \<noteq> [] \<and> firstMatch (re l) (\<lambda>s. length s \<noteq> 0) = l"

section \<open>Library functions used by the parser\<close>

definition TrimPrefix :: "string \<Rightarrow> string \<Rightarrow> string" where
  "TrimPrefix s p = (if prefix p s then drop (length p) s else s)"

definition TrimSuffix :: "string \<Rightarrow> string \<Rightarrow> string" where
  "TrimSuffix s p = (if suffix p s then take (length s - length p) s else s)"

text \<open>
  \<open>strings.TrimSpace\<close> removes leading and trailing white space as Unicode defines it
  (\<open>unicode.IsSpace\<close>). On bytes, a white space rune is one of the UTF-8 encodings
  below: tab, newline, vertical tab, form feed, carriage return, space, U+0085, U+00A0,
  U+1680, U+2000 to U+200A, U+2028, U+2029, U+202F, U+205F and U+3000. Decoding from the
  left finds such a rune exactly when its encoding is a prefix, and \<open>DecodeLastRune\<close>
  finds it exactly when its encoding is a suffix (it steps back to the nearest byte that
  is no continuation byte, which is the first byte of the encoding).
\<close>

definition spaceEncodings :: "string list" where
  "spaceEncodings =
     [[CHR 0x09], [CHR 0x0A], [CHR 0x0B], [CHR 0x0C], [CHR 0x0D], [CHR 0x20],
      [CHR 0xC2, CHR 0x85], [CHR 0xC2, CHR 0xA0],
      [CHR 0xE1, CHR 0x9A, CHR 0x80],
      [CHR 0xE2, CHR 0x80, CHR 0x80], [CHR 0xE2, CHR 0x80, CHR 0x81],
      [CHR 0xE2, CHR 0x80, CHR 0x82], [CHR 0xE2, CHR 0x80, CHR 0x83],
      [CHR 0xE2, CHR 0x80, CHR 0x84], [CHR 0xE2, CHR 0x80, CHR 0x85],
      [CHR 0xE2, CHR 0x80, CHR 0x86], [CHR 0xE2, CHR 0x80, CHR 0x87],
      [CHR 0xE2, CHR 0x80, CHR 0x88], [CHR 0xE2, CHR 0x80, CHR 0x89],
      [CHR 0xE2, CHR 0x80, CHR 0x8A],
      [CHR 0xE2, CHR 0x80, CHR 0xA8], [CHR 0xE2, CHR 0x80, CHR 0xA9],
      [CHR 0xE2, CHR 0x80, CHR 0xAF],
      [CHR 0xE2, CHR 0x81, CHR 0x9F],
      [CHR 0xE3, CHR 0x80, CHR 0x80]]"

definition spacePrefixLen :: "string \<Rightarrow> nat" where
  "spacePrefixLen s =
     (case find (\<lambda>e. prefix e s) spaceEncodings of Some e \<Rightarrow> length e | None \<Rightarrow> 0)"

definition spaceSuffixLen :: "string \<Rightarrow> nat" where
  "spaceSuffixLen s =
     (case find (\<lambda>e. suffix e s) spaceEncodings of Some e \<Rightarrow> length e | None \<Rightarrow> 0)"

lemma spacePrefixLen_le: "spacePrefixLen s \<le> length s"
  by (auto simp: spacePrefixLen_def split: option.split dest!: find_Some_iff [THEN iffD1]
           intro: prefix_length_le)

lemma spaceSuffixLen_le: "spaceSuffixLen s \<le> length s"
  by (auto simp: spaceSuffixLen_def split: option.split dest!: find_Some_iff [THEN iffD1]
           intro: suffix_length_le)

function TrimLeftSpace :: "string \<Rightarrow> string" where
  "TrimLeftSpace s =
     (if spacePrefixLen s = 0 then s else TrimLeftSpace (drop (spacePrefixLen s) s))"
  by pat_completeness auto
termination
proof (relation "measure length")
  fix s :: string
  assume "spacePrefixLen s \<noteq> 0"
  then show "(drop (spacePrefixLen s) s, s) \<in> measure length"
    using spacePrefixLen_le [of s] by simp
qed simp

function TrimRightSpace :: "string \<Rightarrow> string" where
  "TrimRightSpace s =
     (if spaceSuffixLen s = 0 then s
      else TrimRightSpace (take (length s - spaceSuffixLen s) s))"
  by pat_completeness auto
termination
proof (relation "measure length")
  fix s :: string
  assume "spaceSuffixLen s \<noteq> 0"
  then show "(take (length s - spaceSuffixLen s) s, s) \<in> measure length"
    using spaceSuffixLen_le [of s] by simp
qed simp

definition TrimSpace :: "string \<Rightarrow> string" where
  "TrimSpace s = TrimRightSpace (TrimLeftSpace s)"

text \<open>
  \<open>strconv.Atoi\<close> on a 64-bit platform, with its pair of results. The text is an
  optional sign and decimal digits. \<open>ParseUint\<close> reads the digits from the left and
  reports a range error as soon as the value leaves 64 bits, before it looks at the
  rest; a syntax error gives 0, a range error the nearest bound.
\<close>

datatype num_error = ErrSyntax | ErrRange

definition isDigit :: "char \<Rightarrow> bool" where
  "isDigit c \<longleftrightarrow> 0x30 \<le> (of_char c :: nat) \<and> (of_char c :: nat) \<le> 0x39"

fun parseUintLoop :: "string \<Rightarrow> int \<Rightarrow> int \<times> num_error option" where
  "parseUintLoop [] n = (n, None)"
| "parseUintLoop (c # cs) n =
     (if \<not> isDigit c then (0, Some ErrSyntax)
      else if n \<ge> (2 ^ 64 - 1) div 10 + 1 then (2 ^ 64 - 1, Some ErrRange)
      else
        let n1 = n * 10 + (of_char c - 0x30) in
        if n1 > 2 ^ 64 - 1 then (2 ^ 64 - 1, Some ErrRange) else parseUintLoop cs n1)"

definition Atoi :: "string \<Rightarrow> int \<times> num_error option" where
  "Atoi s =
     (if s = [] then (0, Some ErrSyntax)
      else
        let neg = (hd s = CHR ''-'');
            ds = (if hd s = CHR ''+'' \<or> hd s = CHR ''-'' then tl s else s)
        in
          if ds = [] then (0, Some ErrSyntax)
          else
            (case parseUintLoop ds 0 of
               (un, Some ErrSyntax) \<Rightarrow> (0, Some ErrSyntax)
             | (un, _) \<Rightarrow>
                 if \<not> neg \<and> un \<ge> 2 ^ 63 then (2 ^ 63 - 1, Some ErrRange)
                 else if neg \<and> un > 2 ^ 63 then (- (2 ^ 63), Some ErrRange)
                 else (if neg then - un else un, None)))"

section \<open>The tokenizer\<close>

text \<open>
  \<open>kvRe\<close> is \<^verbatim>\<open>^[A-Z_]+=\<close>: a non-empty run of capital letters and underscores at the
  start, followed by \<open>=\<close>.
\<close>

definition isKeyChar :: "char \<Rightarrow> bool" where
  "isKeyChar c \<longleftrightarrow>
     (0x41 \<le> (of_char c :: nat) \<and> (of_char c :: nat) \<le> 0x5A) \<or> c = CHR ''_''"

definition kvReMatch :: "string \<Rightarrow> bool" where
  "kvReMatch s \<longleftrightarrow>
     takeWhile isKeyChar s \<noteq> [] \<and> prefix ''='' (dropWhile isKeyChar s)"

text \<open>
  Package \<open>internal/shquote\<close> is not among the sources. Its two functions are parameters
  of the parser: \<open>Split\<close> for \<open>shquote.Split\<close> and \<open>Parse\<close> for \<open>shquote.Parse\<close>, whose
  tokens have the fields the source reads.
\<close>

record Token =
  Separator :: bool
  Str :: string
  End :: int

definition parseCommand :: "(string \<Rightarrow> string list) \<Rightarrow> string \<Rightarrow> string list \<times> string list" where
  "parseCommand Split s =
     (let parts = Split s in (takeWhile kvReMatch parts, dropWhile kvReMatch parts))"

text \<open>
  The loop of \<open>parseInput\<close>, with the accumulated \<open>env\<close> (here \<open>envs\<close>) and \<open>l\<close>; the slice \<open>s[l:]\<close>
  panics when \<open>l\<close> is out of range.
\<close>

datatype panic =
    UnexpectedSection int string string
  | NilPointerDereference
  | SliceBoundsOutOfRange

fun parseInputLoop :: "Token list \<Rightarrow> string list \<Rightarrow> int \<Rightarrow> string list \<times> int" where
  "parseInputLoop [] envs l = (envs, l)"
| "parseInputLoop (t # ts) envs l =
     (if Separator t then parseInputLoop ts envs l
      else if kvReMatch (Str t) then parseInputLoop ts (envs @ [Str t]) (End t)
      else (envs, l))"

definition parseInput :: "(string \<Rightarrow> Token list) \<Rightarrow> string \<Rightarrow> panic + string list \<times> string" where
  "parseInput Parse s =
     (case parseInputLoop (Parse s) [] 0 of
        (envs, l) \<Rightarrow>
          if l < 0 \<or> int (length s) < l then Inl SliceBoundsOutOfRange
          else Inr (envs, drop (nat l) s))"

section \<open>parseTestCases\<close>

text \<open>
  The parts of a test case. \<open>PartComment\<close> is \<open>testCaseComment\<close> (line and comment),
  \<open>PartFile\<close> is \<open>testCaseFile\<close> (line, name and data), \<open>PartRun\<close> is \<open>testCaseRun\<close>.
\<close>

datatype part =
    PartComment int string
  | PartFile int string string
  | PartRun testCaseRun

fun Line :: "part \<Rightarrow> int" where
  "Line (PartComment n c) = n"
| "Line (PartFile n name data) = n"
| "Line (PartRun tcr) = lineNr tcr"

record testCase =
  path :: string
  parts :: "part list"
  wasTested :: bool

text \<open>
  The local state of the loop of \<open>parseTestCases\<close>: the parts so far, the current
  invocation (\<open>None\<close> is the \<open>nil\<close> pointer) and \<open>replDepth\<close>. A panic ends the parse;
  writing through the \<open>nil\<close> pointer is a panic too.
\<close>

record parseState =
  te_parts :: "part list"
  currentTestRun :: "testCaseRun option"
  replDepth :: int

definition newTestCaseRun ::
  "int \<Rightarrow> string \<Rightarrow> string list \<Rightarrow> string list \<Rightarrow> string \<Rightarrow> testCaseRun" where
  "newTestCaseRun n cmd ev as v =
     \<lparr>lineNr = n, command = cmd, env = ev, args = as, stdin = '''',
      expectedStdout = v, expectedStderr = '''', expectedExitCode = 0,
      actualStdoutBuf = '''', actualStderrBuf = '''', actualExitCode = 0,
      readlines = [], readlinesPos = 0, readlineEnv = []\<rparr>"

definition parseSection ::
  "(string \<Rightarrow> string list) \<Rightarrow> (string \<Rightarrow> Token list) \<Rightarrow> parseState \<Rightarrow> Section
     \<Rightarrow> panic + parseState" where
  "parseSection Split Parse st section =
     (let n = Name section; v = Value section in
      if prefix ''#'' n then
        Inr (st\<lparr>te_parts := te_parts st @ [PartComment (LineNr section) (drop 1 n)]\<rparr>)
      else if prefix ''/'' n then
        Inr (st\<lparr>te_parts := te_parts st @ [PartFile (LineNr section) (take (length n - 1) n) v]\<rparr>)
      else if prefix ''$'' n then
        (let flushed = (case currentTestRun st of
                          Some tcr \<Rightarrow> te_parts st @ [PartRun tcr]
                        | None \<Rightarrow> te_parts st);
             v' = TrimSuffix v [BSL, NL];
             command = TrimPrefix n ''$'';
             ea = parseCommand Split command
         in Inr (st\<lparr>te_parts := flushed,
                    currentTestRun :=
                      Some (newTestCaseRun (LineNr section) command (fst ea) (snd ea) v'),
                    replDepth := replDepth st + 1\<rparr>))
      else if prefix ''exitcode:'' n then
        (case currentTestRun st of
           None \<Rightarrow> Inl NilPointerDereference
         | Some tcr \<Rightarrow>
             Inr (st\<lparr>currentTestRun := Some (tcr\<lparr>expectedExitCode :=
                    fst (Atoi (TrimSpace (TrimPrefix n ''exitcode:'')))\<rparr>)\<rparr>))
      else if prefix ''stdin'' n then
        (case currentTestRun st of
           None \<Rightarrow> Inl NilPointerDereference
         | Some tcr \<Rightarrow> Inr (st\<lparr>currentTestRun := Some (tcr\<lparr>stdin := v\<rparr>)\<rparr>))
      else if prefix ''stderr'' n then
        (case currentTestRun st of
           None \<Rightarrow> Inl NilPointerDereference
         | Some tcr \<Rightarrow> Inr (st\<lparr>currentTestRun := Some (tcr\<lparr>expectedStderr := v\<rparr>)\<rparr>))
      else if CHR ''>'' \<in> set n then
        (let i = LastIndexByte n (CHR ''>'');
             prompt = take (nat i) n @ ''>'' @ '' '';
             expr = TrimSpace (drop (nat i + 1) n)
         in case parseInput Parse expr of
              Inl p \<Rightarrow> Inl p
            | Inr (envs, input) \<Rightarrow>
                (case currentTestRun st of
                   None \<Rightarrow> Inl NilPointerDereference
                 | Some tcr \<Rightarrow>
                     Inr (st\<lparr>currentTestRun := Some (tcr\<lparr>readlines := readlines tcr @
                               [\<lparr>rl_expr = expr, rl_env = envs, rl_input = input,
                                 rl_expectedPrompt = prompt, rl_expectedStdout = v\<rparr>]\<rparr>),
                            replDepth := replDepth st
                              + (if sublist ''| repl'' expr then 1 else 0)
                              - (if expr = ''^D'' then 1 else 0)\<rparr>)))
      else Inl (UnexpectedSection (LineNr section) n v))"

fun parseSections ::
  "(string \<Rightarrow> string list) \<Rightarrow> (string \<Rightarrow> Token list) \<Rightarrow> parseState \<Rightarrow> Section list
     \<Rightarrow> panic + parseState" where
  "parseSections Split Parse st [] = Inr st"
| "parseSections Split Parse st (section # sections) =
     (case parseSection Split Parse st section of
        Inl p \<Rightarrow> Inl p
      | Inr st' \<Rightarrow> parseSections Split Parse st' sections)"

definition parseTestCases ::
  "(string \<Rightarrow> string list) \<Rightarrow> (string \<Rightarrow> Token list) \<Rightarrow> string \<Rightarrow> panic + testCase" where
  "parseTestCases Split Parse s =
     (case parseSections Split Parse
             \<lparr>te_parts = [], currentTestRun = None, replDepth = 0\<rparr>
             (SectionParser boundaryRe s) of
        Inl p \<Rightarrow> Inl p
      | Inr st \<Rightarrow>
          Inr \<lparr>path = '''',
               parts = (case currentTestRun st of
                          Some tcr \<Rightarrow> te_parts st @ [PartRun tcr]
                        | None \<Rightarrow> te_parts st),
               wasTested = False\<rparr>)"

text \<open>
  The header shapes the switch of \<open>parseTestCases\<close> accepts; with any other header the
  \<open>default\<close> branch panics.
\<close>

definition recognizedHeader :: "string \<Rightarrow> bool" where
  "recognizedHeader n \<longleftrightarrow>
     prefix ''#'' n \<or> prefix ''/'' n \<or> prefix ''$'' n \<or> prefix ''exitcode:'' n \<or>
     prefix ''stdin'' n \<or> prefix ''stderr'' n \<or> CHR ''>'' \<in> set n"

text \<open>
  The header shapes in the words of the spec, where a fixture header is \<open>/...:\<close>. A
  header that starts with \<open>/\<close> is \<open>slashOk\<close> when it ends in a colon or holds a \<open>>\<close>; the
  headers the boundary expression yields are (lemma \<open>SectionParser_boundary_names\<close>),
  and for them the two predicates agree.
\<close>

definition headerShape :: "string \<Rightarrow> bool" where
  "headerShape n \<longleftrightarrow>
     prefix ''#'' n \<or> (prefix ''/'' n \<and> suffix '':'' n) \<or> prefix ''$'' n \<or>
     prefix ''exitcode:'' n \<or> prefix ''stdin'' n \<or> prefix ''stderr'' n \<or> CHR ''>'' \<in> set n"

definition slashOk :: "string \<Rightarrow> bool" where
  "slashOk n \<longleftrightarrow> (prefix ''/'' n \<longrightarrow> suffix '':'' n \<or> CHR ''>'' \<in> set n)"

subsection \<open>Stand-ins for shquote in the examples\<close>

text \<open>
  \<open>splitWords\<close> splits at spaces and drops empty words; \<open>noTokens\<close> finds no token, so
  that a dialog line carries no assignment and is its own input.
\<close>

fun splitSpaces :: "string \<Rightarrow> string list" where
  "splitSpaces [] = [[]]"
| "splitSpaces (c # cs) =
     (if c = CHR '' '' then [] # splitSpaces cs
      else (case splitSpaces cs of w # ws \<Rightarrow> (c # w) # ws | [] \<Rightarrow> [[c]]))"

definition splitWords :: "string \<Rightarrow> string list" where
  "splitWords s = filter (\<lambda>w. w \<noteq> []) (splitSpaces s)"

definition noTokens :: "string \<Rightarrow> Token list" where
  "noTokens s = []"

text \<open>The invocations among the parts of a parse result (none when the parse panics).\<close>

fun runsOf :: "part list \<Rightarrow> testCaseRun list" where
  "runsOf [] = []"
| "runsOf (PartRun tcr # ps) = tcr # runsOf ps"
| "runsOf (p # ps) = runsOf ps"

definition parsedRuns :: "panic + testCase \<Rightarrow> testCaseRun list" where
  "parsedRuns r = (case r of Inl p \<Rightarrow> [] | Inr tc \<Rightarrow> runsOf (parts tc))"

section \<open>Expected and actual output\<close>

text \<open>
  \<open>ToExpectedStdout\<close> writes into a \<open>strings.Builder\<close>; the loop over the turns is a fold
  whose accumulator is the text built so far.
\<close>

definition ToExpectedStdout :: "testCaseRun \<Rightarrow> string" where
  "ToExpectedStdout tcr =
     (if length (readlines tcr) = 0 then expectedStdout tcr
      else
        foldl (\<lambda>sb rl.
                 let sb1 = sb @ rl_expectedPrompt rl @ rl_expr rl @ [NL] in
                 if rl_expectedStdout rl \<noteq> [] then sb1 @ rl_expectedStdout rl else sb1)
              [] (readlines tcr))"

definition ToExpectedStderr :: "testCaseRun \<Rightarrow> string" where
  "ToExpectedStderr tcr = expectedStderr tcr"

text \<open>The verb \<open>%d\<close> of \<open>fmt\<close>: decimal digits, with a minus sign for a negative number.\<close>

fun showNat :: "nat \<Rightarrow> string" where
  "showNat n =
     (if n < 10 then [char_of (48 + n)] else showNat (n div 10) @ [char_of (48 + n mod 10)])"

definition showInt :: "int \<Rightarrow> string" where
  "showInt i = (if i < 0 then ''-'' @ showNat (nat (- i)) else showNat (nat i))"

text \<open>
  \<open>ToActual\<close>. \<open>sort.Slice\<close> orders the parts by line; it is not stable, so the order of
  parts of equal line is not specified. The model sorts with the stable \<open>sort_key\<close>;
  the parts \<open>parseTestCases\<close> builds have different lines, and then there is only one
  sorted order (lemma \<open>sorted_distinct_unique\<close> below).
\<close>

definition runToActual :: "testCaseRun \<Rightarrow> string" where
  "runToActual p =
     (let sb = ''$'' @ command p @ [NL];
          s = actualStdoutBuf p;
          sb = (if s \<noteq> [] then
                  (let sb1 = sb @ s in if \<not> suffix [NL] s then sb1 @ [BSL, NL] else sb1)
                else sb);
          sb = (if actualExitCode p \<noteq> 0
                then sb @ ''exitcode: '' @ showInt (actualExitCode p) @ [NL] else sb);
          sb = (if stdin p \<noteq> [] then sb @ ''stdin:'' @ [NL] @ stdin p else sb);
          sb = (if length (actualStderrBuf p) > 0
                then sb @ ''stderr:'' @ [NL] @ actualStderrBuf p else sb)
      in sb)"

fun partToActual :: "part \<Rightarrow> string" where
  "partToActual (PartComment n c) = ''#'' @ c @ [NL]"
| "partToActual (PartRun p) = runToActual p"
| "partToActual (PartFile n name data) = name @ '':'' @ [NL] @ data"

definition ToActual :: "testCase \<Rightarrow> string" where
  "ToActual tc =
     foldl (\<lambda>sb p. sb @ partToActual p) [] (sort_key Line (parts tc))"

subsection \<open>Replaying and writing back\<close>

text \<open>
  The loop of \<open>TestPath\<close> over the parts of one test case. \<open>replay\<close> stands for the
  sub-test of one invocation: \<open>Some\<close> of the invocation with its actual output when
  \<open>testDecodedTestCaseRun\<close> returns, so that \<open>wasTested\<close> is set, and \<open>None\<close> when the
  sub-test does not get there (it is not selected, or \<open>t.Fatal\<close> ends it).
\<close>

fun replayParts ::
  "(testCaseRun \<Rightarrow> testCaseRun option) \<Rightarrow> part list \<Rightarrow> part list \<times> bool" where
  "replayParts replay [] = ([], False)"
| "replayParts replay (PartRun tcr # ps) =
     (case replayParts replay ps of
        (ps', t) \<Rightarrow>
          (case replay tcr of
             Some tcr' \<Rightarrow> (PartRun tcr' # ps', True)
           | None \<Rightarrow> (PartRun tcr # ps', t)))"
| "replayParts replay (p # ps) =
     (case replayParts replay ps of (ps', t) \<Rightarrow> (p # ps', t))"

definition replayTestCase :: "(testCaseRun \<Rightarrow> testCaseRun option) \<Rightarrow> testCase \<Rightarrow> testCase" where
  "replayTestCase replay tc =
     (case replayParts replay (parts tc) of
        (ps', t) \<Rightarrow> tc\<lparr>parts := ps', wasTested := (wasTested tc \<or> t)\<rparr>)"

text \<open>
  The last loop of \<open>TestPath\<close>: the files written, as pairs of path and content, in
  order.
\<close>

definition writeActuals :: "bool \<Rightarrow> testCase list \<Rightarrow> (string \<times> string) list" where
  "writeActuals writeActual tcs =
     (if writeActual
      then map (\<lambda>tc. (path tc, ToActual tc)) (filter wasTested tcs)
      else [])"

text \<open>Two replays for the examples: one that runs every invocation, one that runs none.\<close>

definition replayAll :: "testCaseRun \<Rightarrow> testCaseRun option" where
  "replayAll tcr = Some (tcr\<lparr>actualStdoutBuf := ''out''\<rparr>)"

definition replayNone :: "testCaseRun \<Rightarrow> testCaseRun option" where
  "replayNone tcr = None"

section \<open>Lemmas about the model\<close>

subsection \<open>The three exits of Readline\<close>

lemma Readline_exhausted:
  "length (readlines tcr) \<le> readlinesPos tcr \<Longrightarrow>
   Readline tcr prompt complete =
     (('''', Some EOF), tcr\<lparr>actualStdoutBuf := actualStdoutBuf tcr @ prompt\<rparr>)"
  by (simp add: Readline_def)

lemma Readline_completion:
  assumes "readlinesPos tcr < length (readlines tcr)"
    and "suffix [TAB] (Unescape (rl_input (readlines tcr ! readlinesPos tcr)))"
  shows "Readline tcr prompt complete =
     (('''', None),
      tcr\<lparr>actualStdoutBuf := actualStdoutBuf tcr @ prompt @
             turnEcho complete (readlines tcr ! readlinesPos tcr),
          readlinesPos := readlinesPos tcr + 1,
          readlineEnv := rl_env (readlines tcr ! readlinesPos tcr)\<rparr>)"
proof -
  from assms(2) obtain xs
    where L: "Unescape (rl_input (readlines tcr ! readlinesPos tcr)) = xs @ [TAB]"
    by (auto simp: suffix_def)
  show ?thesis
    using assms(1) by (simp add: Readline_def Let_def turnEcho_def L)
qed

lemma Readline_line:
  assumes "readlinesPos tcr < length (readlines tcr)"
    and "\<not> suffix [TAB] (Unescape (rl_input (readlines tcr ! readlinesPos tcr)))"
  shows "Readline tcr prompt complete =
     ((if Unescape (rl_input (readlines tcr ! readlinesPos tcr)) = ''^D'' then ('''', Some EOF)
       else (Unescape (rl_input (readlines tcr ! readlinesPos tcr)), None)),
      tcr\<lparr>actualStdoutBuf := actualStdoutBuf tcr @ prompt @
             turnEcho complete (readlines tcr ! readlinesPos tcr),
          readlinesPos := readlinesPos tcr + 1,
          readlineEnv := rl_env (readlines tcr ! readlinesPos tcr)\<rparr>)"
  using assms by (simp add: Readline_def Let_def turnEcho_def)

lemma Readline_consumes:
  assumes "readlinesPos tcr < length (readlines tcr)"
    and "Unescape (rl_input (readlines tcr ! readlinesPos tcr)) \<noteq> ''^D''"
  shows "\<exists>line. Readline tcr prompt complete =
     ((line, None),
      tcr\<lparr>actualStdoutBuf := actualStdoutBuf tcr @ prompt @
             turnEcho complete (readlines tcr ! readlinesPos tcr),
          readlinesPos := readlinesPos tcr + 1,
          readlineEnv := rl_env (readlines tcr ! readlinesPos tcr)\<rparr>)"
proof (cases "suffix [TAB] (Unescape (rl_input (readlines tcr ! readlinesPos tcr)))")
  case True
  with assms(1) show ?thesis by (simp add: Readline_completion)
next
  case False
  with assms show ?thesis by (simp add: Readline_line)
qed

lemma driveReadline_exhausts:
  assumes "readlinesPos tcr \<le> length (readlines tcr)"
    and "\<forall>rl \<in> set (drop (readlinesPos tcr) (readlines tcr)). Unescape (rl_input rl) \<noteq> ''^D''"
    and "length (readlines tcr) - readlinesPos tcr < length ps"
  shows "fst (driveReadline tcr ps complete) = Suc (length (readlines tcr) - readlinesPos tcr) \<and>
         readlinesPos (snd (driveReadline tcr ps complete)) = length (readlines tcr) \<and>
         actualStdoutBuf (snd (driveReadline tcr ps complete)) =
           actualStdoutBuf tcr @
           concat (map (\<lambda>(p, rl). p @ turnEcho complete rl)
                       (zip ps (drop (readlinesPos tcr) (readlines tcr)))) @
           ps ! (length (readlines tcr) - readlinesPos tcr)"
  using assms
proof (induction ps arbitrary: tcr)
  case Nil
  then show ?case by simp
next
  case (Cons p ps)
  show ?case
  proof (cases "readlinesPos tcr < length (readlines tcr)")
    case False
    with Cons.prems(1) have eq: "readlinesPos tcr = length (readlines tcr)" by simp
    then show ?thesis by (simp add: Readline_exhausted)
  next
    case True
    let ?rl = "readlines tcr ! readlinesPos tcr"
    let ?tcr' = "tcr\<lparr>actualStdoutBuf := actualStdoutBuf tcr @ p @ turnEcho complete ?rl,
          readlinesPos := readlinesPos tcr + 1,
          readlineEnv := rl_env ?rl\<rparr>"
    have dr: "drop (readlinesPos tcr) (readlines tcr) = ?rl # drop (Suc (readlinesPos tcr)) (readlines tcr)"
      using True by (simp add: Cons_nth_drop_Suc)
    with Cons.prems(2) have nd: "Unescape (rl_input ?rl) \<noteq> ''^D''" by simp
    from Readline_consumes [OF True nd, of p complete]
    obtain line where R: "Readline tcr p complete = ((line, None), ?tcr')" by blast
    have 1: "readlinesPos ?tcr' \<le> length (readlines ?tcr')" using True by simp
    have 2: "\<forall>rl \<in> set (drop (readlinesPos ?tcr') (readlines ?tcr')). Unescape (rl_input rl) \<noteq> ''^D''"
      using Cons.prems(2) dr by simp
    have 3: "length (readlines ?tcr') - readlinesPos ?tcr' < length ps"
      using Cons.prems(3) True by simp
    define m where "m = length (readlines tcr) - Suc (readlinesPos tcr)"
    have m: "length (readlines tcr) - readlinesPos tcr = Suc m"
      using True by (simp add: m_def)
    have m': "length (readlines ?tcr') - readlinesPos ?tcr' = m"
      by (simp add: m_def)
    have rp: "drop (readlinesPos ?tcr') (readlines ?tcr') = drop (Suc (readlinesPos tcr)) (readlines tcr)"
      by simp
    note IH = Cons.IH [OF 1 2 3, unfolded m' rp]
    have D: "driveReadline tcr (p # ps) complete =
        (Suc (fst (driveReadline ?tcr' ps complete)), snd (driveReadline ?tcr' ps complete))"
      using R by (simp add: split_beta)
    have a: "fst (driveReadline tcr (p # ps) complete) = Suc (Suc m)"
      unfolding D fst_conv using IH by simp
    have b: "readlinesPos (snd (driveReadline tcr (p # ps) complete)) = length (readlines tcr)"
      unfolding D snd_conv using IH by simp
    have c: "actualStdoutBuf (snd (driveReadline tcr (p # ps) complete)) =
           actualStdoutBuf tcr @
           concat (map (\<lambda>(p, rl). p @ turnEcho complete rl)
                       (zip (p # ps) (?rl # drop (Suc (readlinesPos tcr)) (readlines tcr)))) @
           (p # ps) ! (Suc m)"
      unfolding D snd_conv using IH by simp
    show ?thesis
      unfolding m dr using a b c by blast
  qed
qed

subsection \<open>The environment as a map\<close>

lemma IndexByte_ge0:
  "0 \<le> IndexByte s c \<Longrightarrow>
     nat (IndexByte s c) < length s \<and> s ! nat (IndexByte s c) = c \<and> c \<notin> set (take (nat (IndexByte s c)) s)"
proof (induction s)
  case Nil
  then show ?case by simp
next
  case (Cons x xs)
  show ?case
  proof (cases "x = c")
    case True
    then show ?thesis by simp
  next
    case False
    with Cons.prems have ge: "0 \<le> IndexByte xs c"
      by (simp add: Let_def split: if_splits)
    then have eq: "IndexByte (x # xs) c = IndexByte xs c + 1"
      using False by (simp add: Let_def)
    have n: "nat (IndexByte xs c + 1) = Suc (nat (IndexByte xs c))"
      using ge by simp
    from Cons.IH [OF ge] False show ?thesis
      unfolding eq n by simp
  qed
qed

lemma IndexByte_range: "-1 \<le> IndexByte s c"
  by (induction s) (auto simp: Let_def)

lemma map_of_envmStore:
  "map_of (envmStore m kv) = map_of m ++ map_of (envmStore [] kv)"
  by (simp add: envmStore_def Let_def update_conv')

lemma map_of_foldl_envmStore:
  "map_of (foldl envmStore m kvs) = map_of m ++ map_of (foldl envmStore [] kvs)"
proof (induction kvs arbitrary: m)
  case Nil
  then show ?case by simp
next
  case (Cons kv kvs)
  have "map_of (foldl envmStore m (kv # kvs)) = map_of (envmStore m kv) ++ map_of (foldl envmStore [] kvs)"
    using Cons.IH [of "envmStore m kv"] by simp
  also have "\<dots> = map_of m ++ (map_of (envmStore [] kv) ++ map_of (foldl envmStore [] kvs))"
    by (subst map_of_envmStore) simp
  also have "map_of (envmStore [] kv) ++ map_of (foldl envmStore [] kvs) = map_of (foldl envmStore [] (kv # kvs))"
    using Cons.IH [of "envmStore [] kv"] by simp
  finally show ?case .
qed

lemma map_of_envmOf_append:
  "map_of (envmOf (a @ b)) = map_of (envmOf a) ++ map_of (envmOf b)"
  unfolding envmOf_def foldl_append by (rule map_of_foldl_envmStore)

lemma keys_update_subset:
  "set (map fst (AList.update k v m)) \<subseteq> insert k (set (map fst m))"
  unfolding update_keys by auto

lemma keysOk_envmStore:
  assumes ok: "keysOk m"
  shows "keysOk (envmStore m kv)"
proof (cases "0 < IndexByte kv (CHR ''='')")
  case False
  then show ?thesis using ok by (simp add: envmStore_def)
next
  case True
  let ?k = "take (nat (IndexByte kv (CHR ''=''))) kv"
  have k: "CHR ''='' \<notin> set ?k"
    using IndexByte_ge0 [of kv "CHR ''=''"] True by simp
  have "\<forall>x \<in> insert ?k (set (map fst m)). CHR ''='' \<notin> set x"
    using ok k unfolding keysOk_def by simp
  then have "\<forall>x \<in> set (map fst (AList.update ?k (drop (nat (IndexByte kv (CHR ''='')) + 1) kv) m)).
               CHR ''='' \<notin> set x"
    using keys_update_subset [of ?k "drop (nat (IndexByte kv (CHR ''='')) + 1) kv" m]
    by (meson subsetD)
  then show ?thesis
    using True unfolding envmStore_def keysOk_def Let_def by simp
qed

lemma keysOk_foldl: "keysOk m \<Longrightarrow> keysOk (foldl envmStore m kvs)"
  by (induction kvs arbitrary: m) (simp_all add: keysOk_envmStore)

lemma keysOk_envmOf: "keysOk (envmOf kvs)"
  unfolding envmOf_def by (rule keysOk_foldl) (simp add: keysOk_def)

lemma prefix_key_eq:
  assumes "CHR ''='' \<notin> set name" and "CHR ''='' \<notin> set k"
  shows "prefix (name @ ''='') (k @ ''='' @ v) \<longleftrightarrow> k = name"
proof
  assume "prefix (name @ ''='') (k @ ''='' @ v)"
  then obtain z where e: "k @ ''='' @ v = name @ ''='' @ z" by (auto simp: prefix_def)
  have "takeWhile (\<lambda>c. c \<noteq> CHR ''='') (k @ ''='' @ v) = k"
    using assms(2) by (subst takeWhile_append2) auto
  moreover have "takeWhile (\<lambda>c. c \<noteq> CHR ''='') (name @ ''='' @ z) = name"
    using assms(1) by (subst takeWhile_append2) auto
  ultimately show "k = name" using e by simp
next
  assume "k = name" then show "prefix (name @ ''='') (k @ ''='' @ v)" by simp
qed

lemma find_render:
  assumes "CHR ''='' \<notin> set name" and "keysOk m"
  shows "find (\<lambda>kv. prefix (name @ ''='') kv) (map (\<lambda>(k, v). k @ ''='' @ v) m) =
         map_option (\<lambda>v. name @ ''='' @ v) (map_of m name)"
  using assms(2)
proof (induction m)
  case Nil
  then show ?case by simp
next
  case (Cons p m)
  obtain k v where p: "p = (k, v)" by (cases p)
  from Cons.prems have k: "CHR ''='' \<notin> set k" and ok: "keysOk m"
    by (auto simp: keysOk_def p)
  show ?case
    using Cons.IH [OF ok] prefix_key_eq [OF assms(1) k, of v]
    by (auto simp: p)
qed

lemma getEnv_map_of:
  assumes "CHR ''='' \<notin> set name"
  shows "getEnv tcr name =
     (case map_of (envmOf (defaultEnv @ env tcr @ readlineEnv tcr)) name of
        Some v \<Rightarrow> v | None \<Rightarrow> '''')"
  unfolding getEnv_def Environ_def find_render [OF assms keysOk_envmOf]
  by (simp split: option.split)

lemma Readline_consumed_state:
  assumes "readlinesPos tcr < length (readlines tcr)"
  shows "snd (Readline tcr prompt complete) =
      tcr\<lparr>actualStdoutBuf := actualStdoutBuf tcr @ prompt @
             turnEcho complete (readlines tcr ! readlinesPos tcr),
          readlinesPos := readlinesPos tcr + 1,
          readlineEnv := rl_env (readlines tcr ! readlinesPos tcr)\<rparr>"
proof (cases "suffix [TAB] (Unescape (rl_input (readlines tcr ! readlinesPos tcr)))")
  case True
  with assms show ?thesis by (simp add: Readline_completion)
next
  case False
  with assms show ?thesis by (simp add: Readline_line)
qed

subsection \<open>Unescape at the start of a text\<close>

lemma Unescape_simple:
  assumes "c = CHR ''t'' \<or> c = CHR ''b'' \<or> c = CHR ''n'' \<or> c = CHR ''r''"
  shows "Unescape (BSL # c # s) = unescapeFn [BSL, c] @ Unescape s"
  using assms by (auto simp: unescapeReMatch_def)

lemma Unescape_bits:
  assumes "length bits = 8" and "list_all isBinDigit bits"
  shows "Unescape ([BSL, CHR ''0'', CHR ''b''] @ bits @ s) = char_of (bitsToNat bits) # Unescape s"
proof -
  have m: "unescapeReMatch ([BSL, CHR ''0'', CHR ''b''] @ bits @ s) = Some ([BSL, CHR ''0'', CHR ''b''] @ bits)"
    using assms by (simp add: unescapeReMatch_def)
  have f: "unescapeFn ([BSL, CHR ''0'', CHR ''b''] @ bits) = [char_of (bitsToNat bits)]"
    by (simp add: unescapeFn_def BytesFromBitString_def)
  have "Unescape (BSL # (''0b'' @ bits @ s)) =
        unescapeFn ([BSL, CHR ''0'', CHR ''b''] @ bits) @
        Unescape (drop (length ([BSL, CHR ''0'', CHR ''b''] @ bits)) (BSL # (''0b'' @ bits @ s)))"
    using m by (subst Unescape.simps) simp
  then show ?thesis using f assms(1) by simp
qed

lemma Unescape_hex_match:
  assumes "inRange0f h" and "inRange0f l"
  shows "Unescape ([BSL, CHR ''0'', CHR ''x'', h, l] @ s) =
         fst (hex_DecodeString [h, l]) @ Unescape s"
proof -
  have m: "unescapeReMatch ([BSL, CHR ''0'', CHR ''x'', h, l] @ s) = Some [BSL, CHR ''0'', CHR ''x'', h, l]"
    using assms by (simp add: unescapeReMatch_def)
  have f: "unescapeFn [BSL, CHR ''0'', CHR ''x'', h, l] = fst (hex_DecodeString [h, l])"
    by (simp add: unescapeFn_def)
  have "Unescape (BSL # (''0x'' @ [h, l] @ s)) =
        unescapeFn [BSL, CHR ''0'', CHR ''x'', h, l] @
        Unescape (drop (length [BSL, CHR ''0'', CHR ''x'', h, l]) (BSL # (''0x'' @ [h, l] @ s)))"
    using m by (subst Unescape.simps) simp
  then show ?thesis using f by simp
qed

lemma fromHexChar_inRange0f: "fromHexChar c = Some x \<Longrightarrow> inRange0f c"
  by (auto simp: fromHexChar_def inRange0f_def Let_def split: if_splits)

lemma Unescape_no_match:
  "unescapeReMatch (c # s) = None \<Longrightarrow> Unescape (c # s) = c # Unescape s"
  by simp

lemma unescapeReMatch_not_bsl: "c \<noteq> BSL \<Longrightarrow> unescapeReMatch (c # s) = None"
  by (simp add: unescapeReMatch_def split: list.split)

lemma Unescape_no_backslash: "BSL \<notin> set s \<Longrightarrow> Unescape s = s"
proof (induction s)
  case Nil
  then show ?case by simp
next
  case (Cons a s)
  then have "a \<noteq> BSL" and "Unescape s = s" by auto
  then show ?case
    using Unescape_no_match [OF unescapeReMatch_not_bsl, of a s] by simp
qed

subsection \<open>Lines and sections\<close>

lemma splitLines_ne: "splitLines s \<noteq> []"
  by (induction s) (auto split: list.split)

lemma splitLines_join:
  "concat (map (\<lambda>l. l @ [NL]) (butlast (splitLines s))) @ last (splitLines s) = s"
proof (induction s)
  case Nil
  then show ?case by simp
next
  case (Cons c cs)
  obtain l ls where sp: "splitLines cs = l # ls"
    using splitLines_ne [of cs] by (cases "splitLines cs") auto
  show ?case
  proof (cases "c = NL")
    case True
    with Cons sp show ?thesis by simp
  next
    case False
    with Cons sp show ?thesis by (cases ls) auto
  qed
qed

lemma splitLines_no_newline: "l \<in> set (splitLines s) \<Longrightarrow> NL \<notin> set l"
proof (induction s arbitrary: l)
  case Nil
  then show ?case by simp
next
  case (Cons c cs)
  then show ?case by (auto split: list.splits if_splits)
qed

lemma splitLines_last:
  "last (splitLines s) = [] \<longleftrightarrow> s = [] \<or> last s = NL"
proof
  assume e: "last (splitLines s) = []"
  show "s = [] \<or> last s = NL"
  proof (cases "butlast (splitLines s)" rule: rev_cases)
    case Nil
    with splitLines_join [of s] e show ?thesis by simp
  next
    case (snoc bs b)
    with splitLines_join [of s] e
    have "s = (concat (map (\<lambda>l. l @ [NL]) bs) @ b) @ [NL]" by simp
    then show ?thesis by (metis last_snoc)
  qed
next
  assume a: "s = [] \<or> last s = NL"
  show "last (splitLines s) = []"
  proof (rule ccontr)
    assume ne: "last (splitLines s) \<noteq> []"
    then have "last s = last (last (splitLines s))"
      using splitLines_join [of s] by (metis last_appendR)
    moreover have "last (last (splitLines s)) \<in> set (last (splitLines s))"
      using ne by simp
    moreover have "NL \<notin> set (last (splitLines s))"
      using splitLines_no_newline [of "last (splitLines s)" s] splitLines_ne [of s] by simp
    moreover have "s \<noteq> []" using ne splitLines_join [of s] by auto
    ultimately show False using a by metis
  qed
qed

lemma linesOf_join:
  assumes "s = [] \<or> last s = NL"
  shows "concat (map (\<lambda>l. l @ [NL]) (linesOf s)) = s"
proof -
  from assms have "last (splitLines s) = []" by (simp add: splitLines_last)
  then show ?thesis
    using splitLines_join [of s] by (simp add: linesOf_def)
qed

lemma linesOf_no_newline: "l \<in> set (linesOf s) \<Longrightarrow> NL \<notin> set l"
proof -
  assume "l \<in> set (linesOf s)"
  then have "l \<in> set (splitLines s)"
    by (auto simp: linesOf_def Let_def split: if_splits dest: in_set_butlastD)
  then show ?thesis by (rule splitLines_no_newline)
qed

lemma sectionStep_render:
  assumes "secs \<noteq> []" and "re l = [] \<or> wholeLineMatch re l"
  shows "snd (sectionStep re (n, secs) l) \<noteq> [] \<and>
         Name (hd (snd (sectionStep re (n, secs) l))) = Name (hd secs) \<and>
         concat (map sectionText (snd (sectionStep re (n, secs) l))) =
           concat (map sectionText secs) @ l @ [NL]"
proof (cases "re l = []")
  case True
  from assms(1) obtain bs x where s: "secs = bs @ [x]"
    by (metis append_butlast_last_id)
  have h: "Name (hd (bs @ [x\<lparr>Value := Value x @ l @ [NL]\<rparr>])) = Name (hd (bs @ [x]))"
    by (cases bs) auto
  show ?thesis
    using True h unfolding s by (simp add: sectionStep_def sectionText_def)
next
  case False
  with assms(2) have "firstMatch (re l) (\<lambda>s. length s \<noteq> 0) = l"
    by (simp add: wholeLineMatch_def)
  with False assms(1) show ?thesis
    by (simp add: sectionStep_def sectionText_def Let_def)
qed

lemma foldl_sectionStep_render:
  assumes "secs \<noteq> []" and "\<forall>l \<in> set ls. re l = [] \<or> wholeLineMatch re l"
  shows "snd (foldl (sectionStep re) (n, secs) ls) \<noteq> [] \<and>
         Name (hd (snd (foldl (sectionStep re) (n, secs) ls))) = Name (hd secs) \<and>
         concat (map sectionText (snd (foldl (sectionStep re) (n, secs) ls))) =
           concat (map sectionText secs) @ concat (map (\<lambda>l. l @ [NL]) ls)"
  using assms
proof (induction ls arbitrary: n secs)
  case Nil
  then show ?case by simp
next
  case (Cons l ls)
  obtain n' secs' where st: "sectionStep re (n, secs) l = (n', secs')"
    by (cases "sectionStep re (n, secs) l")
  from Cons.prems have hl: "re l = [] \<or> wholeLineMatch re l"
    and hls: "\<forall>l \<in> set ls. re l = [] \<or> wholeLineMatch re l" by simp_all
  from sectionStep_render [OF Cons.prems(1) hl, of n] st
  have 1: "secs' \<noteq> []" and 2: "Name (hd secs') = Name (hd secs)"
    and 3: "concat (map sectionText secs') = concat (map sectionText secs) @ l @ [NL]"
    by simp_all
  from Cons.IH [OF 1 hls, of n'] 2 3 show ?case
    by (simp add: st)
qed

subsection \<open>The first section and unknown headers\<close>

lemma parseSection_unrecognized:
  assumes "\<not> recognizedHeader (Name section)"
  shows "parseSection Split Parse st section =
         Inl (UnexpectedSection (LineNr section) (Name section) (Value section))"
  using assms unfolding recognizedHeader_def parseSection_def Let_def by simp

lemma parseSections_unrecognized:
  assumes "\<exists>sec \<in> set sections. \<not> recognizedHeader (Name sec)"
  shows "isl (parseSections Split Parse st sections)"
  using assms
proof (induction sections arbitrary: st)
  case Nil
  then show ?case by simp
next
  case (Cons sec sections)
  show ?case
  proof (cases "parseSection Split Parse st sec")
    case (Inl p)
    then show ?thesis by simp
  next
    case (Inr st')
    then have "recognizedHeader (Name sec)"
      using parseSection_unrecognized [of sec Split Parse st] by auto
    with Cons.prems have "\<exists>sec \<in> set sections. \<not> recognizedHeader (Name sec)" by auto
    from Cons.IH [OF this, of st'] Inr show ?thesis by simp
  qed
qed

lemma sectionStep_hd:
  assumes "secs \<noteq> []"
  shows "snd (sectionStep re (n, secs) l) \<noteq> [] \<and>
         LineNr (hd (snd (sectionStep re (n, secs) l))) = LineNr (hd secs) \<and>
         Name (hd (snd (sectionStep re (n, secs) l))) = Name (hd secs)"
proof -
  from assms obtain bs x where s: "secs = bs @ [x]"
    by (metis append_butlast_last_id)
  show ?thesis
    unfolding s by (cases bs) (simp_all add: sectionStep_def Let_def)
qed

lemma foldl_sectionStep_hd:
  assumes "secs \<noteq> []"
  shows "snd (foldl (sectionStep re) (n, secs) ls) \<noteq> [] \<and>
         LineNr (hd (snd (foldl (sectionStep re) (n, secs) ls))) = LineNr (hd secs) \<and>
         Name (hd (snd (foldl (sectionStep re) (n, secs) ls))) = Name (hd secs)"
  using assms
proof (induction ls arbitrary: n secs)
  case Nil
  then show ?case by simp
next
  case (Cons l ls)
  obtain n' secs' where st: "sectionStep re (n, secs) l = (n', secs')"
    by (cases "sectionStep re (n, secs) l")
  from sectionStep_hd [OF Cons.prems, of re n l] st
  have 1: "secs' \<noteq> []" and 2: "LineNr (hd secs') = LineNr (hd secs)"
    and 3: "Name (hd secs') = Name (hd secs)" by simp_all
  from Cons.IH [OF 1, of n'] 2 3 show ?case by (simp add: st)
qed

lemma linesOf_ne: "s \<noteq> [] \<Longrightarrow> linesOf s \<noteq> []"
proof -
  assume ne: "s \<noteq> []"
  show ?thesis
  proof (cases "last (splitLines s) = []")
    case False
    then show ?thesis using splitLines_ne [of s] by (simp add: linesOf_def)
  next
    case True
    with splitLines_join [of s] ne have "butlast (splitLines s) \<noteq> []" by auto
    with True show ?thesis by (simp add: linesOf_def)
  qed
qed

lemma SectionParser_first:
  assumes "s \<noteq> []"
  shows "SectionParser re s \<noteq> [] \<and>
         LineNr (hd (SectionParser re s)) = 1 \<and>
         Name (hd (SectionParser re s)) = firstMatch (re (hd (linesOf s))) (\<lambda>s. length s \<noteq> 0)"
proof -
  from linesOf_ne [OF assms] obtain l ls where L: "linesOf s = l # ls"
    by (cases "linesOf s") auto
  let ?first = "\<lparr>LineNr = 1, Name = firstMatch (re l) (\<lambda>s. length s \<noteq> 0), Value = ''''\<rparr>"
  have st: "sectionStep re (0, []) l = (1, [?first])"
    by (simp add: sectionStep_def)
  have sp: "SectionParser re s = snd (foldl (sectionStep re) (1, [?first]) ls)"
    by (simp add: SectionParser_def L st)
  from foldl_sectionStep_hd [of "[?first]" re 1 ls] show ?thesis
    unfolding sp L by simp
qed

subsection \<open>What the sections of one invocation do to it\<close>

lemma exitcode_not_other:
  assumes "prefix ''exitcode:'' n"
  shows "\<not> prefix ''#'' n" "\<not> prefix ''/'' n" "\<not> prefix ''$'' n"
  using assms by (auto simp: prefix_def)

lemma parseSection_exitcode:
  assumes "prefix ''exitcode:'' (Name section)" and "currentTestRun st = Some tcr"
  shows "parseSection Split Parse st section =
     Inr (st\<lparr>currentTestRun := Some (tcr\<lparr>expectedExitCode :=
            fst (Atoi (TrimSpace (TrimPrefix (Name section) ''exitcode:'')))\<rparr>)\<rparr>)"
  using assms exitcode_not_other [OF assms(1)]
  unfolding parseSection_def Let_def by simp

lemma parseSection_dollar:
  assumes "prefix ''$'' (Name section)"
  shows "\<exists>st'. parseSection Split Parse st section = Inr st' \<and>
     currentTestRun st' =
       Some (newTestCaseRun (LineNr section) (drop 1 (Name section))
              (fst (parseCommand Split (drop 1 (Name section))))
              (snd (parseCommand Split (drop 1 (Name section))))
              (TrimSuffix (Value section) [BSL, NL]))"
proof -
  from assms have "\<not> prefix ''#'' (Name section)" "\<not> prefix ''/'' (Name section)"
    by (auto simp: prefix_def)
  moreover from assms have "TrimPrefix (Name section) ''$'' = drop 1 (Name section)"
    by (simp add: TrimPrefix_def)
  ultimately show ?thesis
    using assms unfolding parseSection_def Let_def by simp
qed

lemma parseSection_keeps:
  assumes "parseSection Split Parse st sec = Inr st'"
    and "\<not> prefix ''$'' (Name sec)"
    and "currentTestRun st = Some tcr"
  shows "\<exists>tcr'. currentTestRun st' = Some tcr' \<and>
           lineNr tcr' = lineNr tcr \<and>
           expectedStdout tcr' = expectedStdout tcr \<and>
           (\<not> prefix ''exitcode:'' (Name sec) \<longrightarrow> expectedExitCode tcr' = expectedExitCode tcr) \<and>
           (CHR ''>'' \<notin> set (Name sec) \<longrightarrow> readlines tcr' = readlines tcr)"
  using assms unfolding parseSection_def Let_def
  by (auto split: if_splits sum.splits prod.splits)

lemma parseSections_keeps:
  assumes "parseSections Split Parse st secs = Inr st'"
    and "\<forall>sec \<in> set secs. \<not> prefix ''$'' (Name sec)"
    and "currentTestRun st = Some tcr"
  shows "\<exists>tcr'. currentTestRun st' = Some tcr' \<and>
           lineNr tcr' = lineNr tcr \<and>
           expectedStdout tcr' = expectedStdout tcr \<and>
           ((\<forall>sec \<in> set secs. \<not> prefix ''exitcode:'' (Name sec)) \<longrightarrow>
              expectedExitCode tcr' = expectedExitCode tcr) \<and>
           ((\<forall>sec \<in> set secs. CHR ''>'' \<notin> set (Name sec)) \<longrightarrow> readlines tcr' = readlines tcr)"
  using assms
proof (induction secs arbitrary: st tcr)
  case Nil
  then show ?case by simp
next
  case (Cons sec secs)
  from Cons.prems(1) obtain st1 where s1: "parseSection Split Parse st sec = Inr st1"
    and s2: "parseSections Split Parse st1 secs = Inr st'"
    by (auto split: sum.splits)
  from Cons.prems(2) have nd: "\<not> prefix ''$'' (Name sec)"
    and nds: "\<forall>sec \<in> set secs. \<not> prefix ''$'' (Name sec)" by simp_all
  from parseSection_keeps [OF s1 nd Cons.prems(3)]
  obtain tcr1 where c1: "currentTestRun st1 = Some tcr1"
    and k1: "lineNr tcr1 = lineNr tcr" "expectedStdout tcr1 = expectedStdout tcr"
      "\<not> prefix ''exitcode:'' (Name sec) \<longrightarrow> expectedExitCode tcr1 = expectedExitCode tcr"
      "CHR ''>'' \<notin> set (Name sec) \<longrightarrow> readlines tcr1 = readlines tcr"
    by blast
  from Cons.IH [OF s2 nds c1]
  obtain tcr' where c2: "currentTestRun st' = Some tcr'"
    and k2: "lineNr tcr' = lineNr tcr1" "expectedStdout tcr' = expectedStdout tcr1"
      "(\<forall>sec \<in> set secs. \<not> prefix ''exitcode:'' (Name sec)) \<longrightarrow>
              expectedExitCode tcr' = expectedExitCode tcr1"
      "(\<forall>sec \<in> set secs. CHR ''>'' \<notin> set (Name sec)) \<longrightarrow> readlines tcr' = readlines tcr1"
    by blast
  show ?case
    using c2 k1 k2 by simp
qed

lemma parseSections_invocation:
  assumes "prefix ''$'' (Name dollar)"
    and "\<forall>sec \<in> set body. \<not> prefix ''$'' (Name sec)"
    and "parseSections Split Parse st (dollar # body) = Inr st'"
  shows "\<exists>tcr'. currentTestRun st' = Some tcr' \<and>
           lineNr tcr' = LineNr dollar \<and>
           expectedStdout tcr' = TrimSuffix (Value dollar) [BSL, NL] \<and>
           ((\<forall>sec \<in> set body. \<not> prefix ''exitcode:'' (Name sec)) \<longrightarrow> expectedExitCode tcr' = 0) \<and>
           ((\<forall>sec \<in> set body. CHR ''>'' \<notin> set (Name sec)) \<longrightarrow> readlines tcr' = [])"
proof -
  from parseSection_dollar [OF assms(1), of Split Parse st]
  obtain st1 where s1: "parseSection Split Parse st dollar = Inr st1"
    and c1: "currentTestRun st1 =
       Some (newTestCaseRun (LineNr dollar) (drop 1 (Name dollar))
              (fst (parseCommand Split (drop 1 (Name dollar))))
              (snd (parseCommand Split (drop 1 (Name dollar))))
              (TrimSuffix (Value dollar) [BSL, NL]))"
    by blast
  from assms(3) s1 have s2: "parseSections Split Parse st1 body = Inr st'" by simp
  from parseSections_keeps [OF s2 assms(2) c1]
  show ?thesis by (simp add: newTestCaseRun_def)
qed

subsection \<open>Builders and sorting\<close>

lemma foldl_builder:
  "foldl (\<lambda>sb x. sb @ f x) acc xs = acc @ concat (map f xs)"
  by (induction xs arbitrary: acc) simp_all

lemma ToExpectedStdout_turns:
  "readlines tcr \<noteq> [] \<Longrightarrow>
   ToExpectedStdout tcr =
     concat (map (\<lambda>rl. rl_expectedPrompt rl @ rl_expr rl @ [NL] @ rl_expectedStdout rl)
                 (readlines tcr))"
proof -
  have e: "(\<lambda>sb rl. let sb1 = sb @ rl_expectedPrompt rl @ rl_expr rl @ [NL] in
                 if rl_expectedStdout rl \<noteq> [] then sb1 @ rl_expectedStdout rl else sb1)
        = (\<lambda>sb rl. sb @ (rl_expectedPrompt rl @ rl_expr rl @ [NL] @ rl_expectedStdout rl))"
    by (auto simp: fun_eq_iff Let_def)
  assume "readlines tcr \<noteq> []"
  then show ?thesis
    unfolding ToExpectedStdout_def e foldl_builder by simp
qed

lemma filter_key_distinct:
  "distinct (map f xs) \<Longrightarrow> k \<in> set xs \<Longrightarrow> filter (\<lambda>x. f k = f x) xs = [k]"
proof (induction xs)
  case Nil
  then show ?case by simp
next
  case (Cons a xs)
  show ?case
  proof (cases "k = a")
    case True
    have "filter (\<lambda>x. f a = f x) xs = []"
      using Cons.prems(1) by (auto simp: filter_empty_conv)
    with True show ?thesis by simp
  next
    case False
    with Cons.prems have kin: "k \<in> set xs" and d: "distinct (map f xs)" by simp_all
    from Cons.prems(1) have "f a \<notin> f ` set xs" by simp
    with kin have "f k \<noteq> f a" by (metis imageI)
    with Cons.IH [OF d kin] show ?thesis by simp
  qed
qed

lemma sorted_distinct_unique:
  assumes "mset ys = mset xs" and "distinct (map f xs)" and "sorted (map f ys)"
  shows "sort_key f xs = ys"
proof (rule properties_for_sort_key [OF assms(1) _ assms(3)])
  fix k
  assume k: "k \<in> set ys"
  have "mset (map f ys) = mset (map f xs)" using assms(1) by simp
  then have dy: "distinct (map f ys)"
    using assms(2) by (metis mset_eq_imp_distinct_iff)
  have kx: "k \<in> set xs" using k assms(1) by (metis mset_eq_setD)
  show "filter (\<lambda>x. f k = f x) ys = filter (\<lambda>x. f k = f x) xs"
    using filter_key_distinct [OF dy k] filter_key_distinct [OF assms(2) kx] by simp
qed

lemma ToActual_concat:
  "ToActual tc = concat (map partToActual (sort_key Line (parts tc)))"
  by (simp add: ToActual_def foldl_builder)

lemma runToActual_blocks:
  "runToActual p =
     ''$'' @ command p @ [NL] @
     actualStdoutBuf p @
     (if actualStdoutBuf p \<noteq> [] \<and> \<not> suffix [NL] (actualStdoutBuf p) then [BSL, NL] else []) @
     (if actualExitCode p \<noteq> 0 then ''exitcode: '' @ showInt (actualExitCode p) @ [NL] else []) @
     (if stdin p \<noteq> [] then ''stdin:'' @ [NL] @ stdin p else []) @
     (if actualStderrBuf p \<noteq> [] then ''stderr:'' @ [NL] @ actualStderrBuf p else [])"
  by (simp add: runToActual_def Let_def)

lemma replayParts_tested:
  "snd (replayParts replay ps) \<longleftrightarrow> (\<exists>tcr \<in> set (runsOf ps). replay tcr \<noteq> None)"
proof (induction ps)
  case Nil
  then show ?case by simp
next
  case (Cons p ps)
  then show ?case
    by (cases p) (auto split: prod.splits option.splits)
qed

lemma replayTestCase_tested:
  "wasTested (replayTestCase replay tc) \<longleftrightarrow>
     wasTested tc \<or> (\<exists>tcr \<in> set (runsOf (parts tc)). replay tcr \<noteq> None)"
proof (cases "replayParts replay (parts tc)")
  case (Pair ps' t)
  with replayParts_tested [of replay "parts tc"] show ?thesis
    by (simp add: replayTestCase_def)
qed

subsection \<open>The headers of a transcript's sections\<close>

lemma IndexByte_member: "c \<in> set s \<Longrightarrow> 0 \<le> IndexByte s c"
  by (induction s) (auto simp: Let_def)

lemma LastIndexByte_member:
  assumes "c \<in> set s"
  shows "0 \<le> LastIndexByte s c \<and> nat (LastIndexByte s c) < length s \<and>
         s ! nat (LastIndexByte s c) = c"
proof -
  let ?j = "IndexByte (rev s) c"
  from assms have j0: "0 \<le> ?j" by (simp add: IndexByte_member)
  from IndexByte_ge0 [OF j0] have jl: "nat ?j < length s" and jc: "rev s ! nat ?j = c"
    by simp_all
  have i: "LastIndexByte s c = int (length s) - 1 - ?j"
    using j0 by (simp add: LastIndexByte_def Let_def)
  have n: "nat (int (length s) - 1 - ?j) = length s - Suc (nat ?j)"
    using j0 jl by linarith
  from jc jl have "s ! (length s - Suc (nat ?j)) = c"
    by (simp add: rev_nth)
  with jl j0 show ?thesis unfolding i n by auto
qed

lemma promptLine_gt: "promptLine l \<Longrightarrow> CHR ''>'' \<in> set l"
proof -
  let ?p = "takeWhile (\<lambda>c. c \<noteq> CHR ''<'' \<and> c \<noteq> CHR '':'' \<and> c \<noteq> CHR ''|'') l"
  assume "promptLine l"
  then have "CHR ''>'' \<in> set (tl ?p)" by (simp add: promptLine_def)
  then have "CHR ''>'' \<in> set ?p" by (cases ?p) simp_all
  then show ?thesis by (rule set_takeWhileD [THEN conjunct1])
qed

lemma slashOk_boundaryRe: "slashOk (firstMatch (boundaryRe l) (\<lambda>s. length s \<noteq> 0))"
proof (cases "prefix ''$ '' l \<or> l = ''stdin:'' \<or> l = ''stderr:'' \<or> prefix ''exitcode:'' l \<or>
              prefix ''#'' l")
  case True
  then have "boundaryRe l = [l]" by (auto simp: boundaryRe_def)
  moreover from True have "\<not> prefix ''/'' l" by (auto simp: prefix_def)
  ultimately show ?thesis by (simp add: firstMatch_def slashOk_def)
next
  case other: False
  show ?thesis
  proof (cases "prefix ''/'' l \<and> CHR '':'' \<in> set (tl l)")
    case True
    define i where "i = nat (LastIndexByte l (CHR '':''))"
    define x where "x = take (i + 1) l"
    from True have m: "CHR '':'' \<in> set l" by (cases l) auto
    from LastIndexByte_member [OF m]
    have il: "i < length l" and ic: "l ! i = CHR '':''" by (simp_all add: i_def)
    have "x = take i l @ [CHR '':'']"
      unfolding x_def using il ic by (simp add: take_Suc_conv_app_nth)
    then have sf: "suffix '':'' x" by (simp add: suffix_def)
    have b: "boundaryRe l = [x]"
      using other True by (simp add: boundaryRe_def x_def i_def)
    have "slashOk x" using sf by (simp add: slashOk_def)
    moreover have "slashOk []" by (simp add: slashOk_def)
    ultimately show ?thesis unfolding b by (simp add: firstMatch_def)
  next
    case nofix: False
    show ?thesis
    proof (cases "promptLine l")
      case True
      then have "CHR ''>'' \<in> set l" by (rule promptLine_gt)
      moreover have "boundaryRe l = [l]"
        using other nofix True unfolding boundaryRe_def by (simp only: if_False if_True) simp
      ultimately show ?thesis by (auto simp: firstMatch_def slashOk_def)
    next
      case False
      then have "boundaryRe l = []"
        using other nofix unfolding boundaryRe_def by (simp only: if_False if_True) simp
      then show ?thesis by (simp add: firstMatch_def slashOk_def)
    qed
  qed
qed

lemma sectionStep_names:
  assumes "\<forall>sec \<in> set secs. P (Name sec)" and "P (firstMatch (re l) (\<lambda>s. length s \<noteq> 0))"
  shows "\<forall>sec \<in> set (snd (sectionStep re (n, secs) l)). P (Name sec)"
proof (cases "secs = []")
  case True
  with assms show ?thesis by (simp add: sectionStep_def Let_def)
next
  case False
  then obtain bs x where s: "secs = bs @ [x]" by (metis append_butlast_last_id)
  with assms show ?thesis by (auto simp: sectionStep_def Let_def)
qed

lemma foldl_sectionStep_names:
  assumes "\<forall>sec \<in> set secs. P (Name sec)"
    and "\<forall>l. P (firstMatch (re l) (\<lambda>s. length s \<noteq> 0))"
  shows "\<forall>sec \<in> set (snd (foldl (sectionStep re) (n, secs) ls)). P (Name sec)"
  using assms(1)
proof (induction ls arbitrary: n secs)
  case Nil
  then show ?case by simp
next
  case (Cons l ls)
  obtain n' secs' where st: "sectionStep re (n, secs) l = (n', secs')"
    by (cases "sectionStep re (n, secs) l")
  from sectionStep_names [OF Cons.prems, of re l n] assms(2) st
  have "\<forall>sec \<in> set secs'. P (Name sec)" by simp
  from Cons.IH [OF this, of n'] show ?case by (simp add: st)
qed

lemma SectionParser_boundary_names:
  "sec \<in> set (SectionParser boundaryRe s) \<Longrightarrow> slashOk (Name sec)"
  using foldl_sectionStep_names [of "[]" slashOk boundaryRe 0 "linesOf s"] slashOk_boundaryRe
  by (simp add: SectionParser_def)

lemma headerShape_recognized:
  "slashOk n \<Longrightarrow> headerShape n \<longleftrightarrow> recognizedHeader n"
  by (auto simp: headerShape_def recognizedHeader_def slashOk_def)

section \<open>The claims\<close>

subsection \<open>C1: environment overrides of dialog turns\<close>

text \<open>
  Claim C1 says that the assignments of a consumed turn stay in effect for every later
  turn of the invocation. \<open>Readline\<close> assigns \<open>readlineEnv\<close> from the turn it consumes, so
  the assignments of the turn before are dropped. Claim C1, as amended: when \<open>Readline\<close>
  consumes a turn, the assignments of that turn, and of no earlier turn, are in effect
  from then on until the next turn is consumed; they are added to the base environment
  of the invocation (the defaults followed by the assignments of the command line) and
  do not replace it: for a name without \<open>=\<close>, \<open>getEnv\<close> yields the last value the turn
  assigns to the name, and the value of the base environment when the turn assigns none.
\<close>

theorem C1_turn_env_in_effect:
  assumes "readlinesPos tcr < length (readlines tcr)" and "CHR ''='' \<notin> set name"
  shows "readlineEnv (snd (Readline tcr prompt complete)) = rl_env (readlines tcr ! readlinesPos tcr) \<and>
         env (snd (Readline tcr prompt complete)) = env tcr \<and>
         getEnv (snd (Readline tcr prompt complete)) name =
           (case map_of (envmOf (rl_env (readlines tcr ! readlinesPos tcr))) name of
              Some v \<Rightarrow> v
            | None \<Rightarrow> getEnv (tcr\<lparr>readlineEnv := []\<rparr>) name)"
proof -
  let ?e = "rl_env (readlines tcr ! readlinesPos tcr)"
  have "map_of (envmOf (defaultEnv @ env tcr @ ?e)) =
        map_of (envmOf (defaultEnv @ env tcr @ [])) ++ map_of (envmOf ?e)"
    using map_of_envmOf_append [of "defaultEnv @ env tcr" ?e] by simp
  then show ?thesis
    unfolding Readline_consumed_state [OF assms(1)] getEnv_map_of [OF assms(2)]
    by (simp add: map_add_def split: option.split)
qed

text \<open>
  The amended claim at a turn that assigns \<open>NO_COLOR=0\<close>: the value shadows the default
  \<open>NO_COLOR=1\<close>, and \<open>_STDOUT_WIDTH\<close> keeps its default.
\<close>

theorem C1_witness:
  "readlinesPos (mkRun [mkTurn ''NO_COLOR=0 .a'' [''NO_COLOR=0''] '' .a'']) < length (readlines (mkRun [mkTurn ''NO_COLOR=0 .a'' [''NO_COLOR=0''] '' .a''])) \<and>
   CHR ''='' \<notin> set ''NO_COLOR'' \<and> CHR ''='' \<notin> set ''_STDOUT_WIDTH'' \<and>
   getEnv (snd (Readline (mkRun [mkTurn ''NO_COLOR=0 .a'' [''NO_COLOR=0''] '' .a'']) ''> '' noComplete)) ''NO_COLOR'' = ''0'' \<and>
   getEnv (snd (Readline (mkRun [mkTurn ''NO_COLOR=0 .a'' [''NO_COLOR=0''] '' .a'']) ''> '' noComplete)) ''_STDOUT_WIDTH'' = ''135''"
proof -
  let ?r = "mkRun [mkTurn ''NO_COLOR=0 .a'' [''NO_COLOR=0''] '' .a'']"
  have h1: "readlinesPos ?r < length (readlines ?r)" by code_simp
  have h2: "CHR ''='' \<notin> set ''NO_COLOR''" by code_simp
  have h3: "CHR ''='' \<notin> set ''_STDOUT_WIDTH''" by code_simp
  have e1: "(case map_of (envmOf (rl_env (readlines ?r ! readlinesPos ?r))) ''NO_COLOR'' of
              Some v \<Rightarrow> v | None \<Rightarrow> getEnv (?r\<lparr>readlineEnv := []\<rparr>) ''NO_COLOR'') = ''0''"
    by code_simp
  have e2: "(case map_of (envmOf (rl_env (readlines ?r ! readlinesPos ?r))) ''_STDOUT_WIDTH'' of
              Some v \<Rightarrow> v | None \<Rightarrow> getEnv (?r\<lparr>readlineEnv := []\<rparr>) ''_STDOUT_WIDTH'') = ''135''"
    by code_simp
  from C1_turn_env_in_effect [OF h1 h2, of "''> ''" noComplete] e1
  have a: "getEnv (snd (Readline ?r ''> '' noComplete)) ''NO_COLOR'' = ''0''" by (simp only:)
  from C1_turn_env_in_effect [OF h1 h3, of "''> ''" noComplete] e2
  have b: "getEnv (snd (Readline ?r ''> '' noComplete)) ''_STDOUT_WIDTH'' = ''135''" by (simp only:)
  from h1 h2 h3 a b show ?thesis by blast
qed

text \<open>
  Claim C1 as stated fails: the first turn assigns \<open>_STDOUT_WIDTH=80\<close>, the second turn
  has no assignment, and after the second turn is consumed the width is the default 135
  again.
\<close>

theorem C1_counterexample:
  "rl_env (readlines (mkRun [mkTurn ''_STDOUT_WIDTH=80 .a'' [''_STDOUT_WIDTH=80''] '' .a'', mkTurn ''.b'' [] ''.b'']) ! 0)
     = [''_STDOUT_WIDTH=80''] \<and>
   getEnv (snd (Readline (mkRun [mkTurn ''_STDOUT_WIDTH=80 .a'' [''_STDOUT_WIDTH=80''] '' .a'', mkTurn ''.b'' [] ''.b'']) ''> '' noComplete))
     ''_STDOUT_WIDTH'' = ''80'' \<and>
   getEnv (snd (Readline (snd (Readline (mkRun [mkTurn ''_STDOUT_WIDTH=80 .a'' [''_STDOUT_WIDTH=80''] '' .a'', mkTurn ''.b'' [] ''.b'']) ''> '' noComplete)) ''> '' noComplete))
     ''_STDOUT_WIDTH'' \<noteq> ''80''"
  by code_simp

subsection \<open>C2: putting the sections together again\<close>

text \<open>
  Claim C2 says that the sections of every text, put together again, are the text. That
  fails in three ways: a first line that the expression does not match starts a section
  with an empty header but its text is kept nowhere; a last line without a newline gets
  one; and the alternative \<^verbatim>\<open>^/.*:\<close> matches only up to the last colon, so the rest of
  such a line is not in the header. Claim C2, as amended: for every text that is empty
  or ends in a newline, whose first line the expression matches and in which every line
  that the expression matches is matched as a whole (the recorded header is the whole,
  non-empty line), the concatenation of the sections in order, each as its header line,
  a newline and its body, is the text; and the first line of every non-empty text
  starts a section, at line 1, whose header is empty when the expression does not match
  the line.
\<close>

theorem C2_lossless_when_whole_lines:
  "((s = [] \<or> last s = NL) \<and>
    (\<forall>l \<in> set (linesOf s). re l = [] \<or> wholeLineMatch re l) \<and>
    (s \<noteq> [] \<longrightarrow> re (hd (linesOf s)) \<noteq> []) \<longrightarrow>
      reassemble (SectionParser re s) = s) \<and>
   (s \<noteq> [] \<longrightarrow>
      SectionParser re s \<noteq> [] \<and>
      LineNr (hd (SectionParser re s)) = 1 \<and>
      Name (hd (SectionParser re s)) = firstMatch (re (hd (linesOf s))) (\<lambda>s. length s \<noteq> 0) \<and>
      (re (hd (linesOf s)) = [] \<longrightarrow> Name (hd (SectionParser re s)) = []))"
proof (intro conjI impI)
  assume a: "(s = [] \<or> last s = NL) \<and>
    (\<forall>l \<in> set (linesOf s). re l = [] \<or> wholeLineMatch re l) \<and>
    (s \<noteq> [] \<longrightarrow> re (hd (linesOf s)) \<noteq> [])"
  then have h1: "s = [] \<or> last s = NL"
    and h2: "\<forall>l \<in> set (linesOf s). re l = [] \<or> wholeLineMatch re l"
    and h3: "s \<noteq> [] \<longrightarrow> re (hd (linesOf s)) \<noteq> []" by simp_all
  show "reassemble (SectionParser re s) = s"
  proof (cases "linesOf s")
    case Nil
    with linesOf_join [OF h1] have "s = []" by simp
    with Nil show ?thesis by (simp add: SectionParser_def)
  next
    case (Cons l ls)
    with linesOf_join [OF h1] have sne: "s \<noteq> []" by auto
    with h3 Cons have m: "re l \<noteq> []" by simp
    with h2 Cons have w: "wholeLineMatch re l" by auto
    let ?first = "\<lparr>LineNr = 1, Name = l, Value = ''''\<rparr>"
    have st: "sectionStep re (0, []) l = (1, [?first])"
      using w by (simp add: sectionStep_def wholeLineMatch_def)
    have hls: "\<forall>l \<in> set ls. re l = [] \<or> wholeLineMatch re l"
      using h2 Cons by simp
    let ?res = "snd (foldl (sectionStep re) (1, [?first]) ls)"
    from foldl_sectionStep_render [OF _ hls, of "[?first]" 1]
    have 1: "?res \<noteq> []" and 2: "Name (hd ?res) = l"
      and 3: "concat (map sectionText ?res) = l @ [NL] @ concat (map (\<lambda>l. l @ [NL]) ls)"
      by (simp_all add: sectionText_def)
    have sp: "SectionParser re s = ?res"
      by (simp add: SectionParser_def Cons st)
    from w have lne: "l \<noteq> []" by (simp add: wholeLineMatch_def)
    obtain x xs where r: "?res = x # xs" using 1 by (cases ?res) auto
    with 2 lne have "Name x \<noteq> []" by simp
    then have "reassemble ?res = concat (map sectionText ?res)"
      unfolding r by simp
    also have "\<dots> = concat (map (\<lambda>l. l @ [NL]) (linesOf s))"
      unfolding 3 Cons by simp
    also have "\<dots> = s" by (rule linesOf_join [OF h1])
    finally show ?thesis unfolding sp .
  qed
next
  assume "s \<noteq> []"
  from SectionParser_first [OF this, of re]
  show "SectionParser re s \<noteq> []" and "LineNr (hd (SectionParser re s)) = 1"
    and "Name (hd (SectionParser re s)) = firstMatch (re (hd (linesOf s))) (\<lambda>s. length s \<noteq> 0)"
    by simp_all
next
  assume "s \<noteq> []" and "re (hd (linesOf s)) = []"
  with SectionParser_first [of s re]
  show "Name (hd (SectionParser re s)) = []" by (simp add: firstMatch_def)
qed

text \<open>
  The amended claim at a transcript with an invocation and a stderr section, and at a
  transcript whose first line is no boundary.
\<close>

theorem C2_witness:
  "last (''$ echo hi'' @ [NL] @ ''hi'' @ [NL] @ ''stderr:'' @ [NL] @ ''oops'' @ [NL]) = NL \<and>
   length (SectionParser boundaryRe (''$ echo hi'' @ [NL] @ ''hi'' @ [NL] @ ''stderr:'' @ [NL] @ ''oops'' @ [NL])) = 2 \<and>
   reassemble (SectionParser boundaryRe (''$ echo hi'' @ [NL] @ ''hi'' @ [NL] @ ''stderr:'' @ [NL] @ ''oops'' @ [NL]))
     = ''$ echo hi'' @ [NL] @ ''hi'' @ [NL] @ ''stderr:'' @ [NL] @ ''oops'' @ [NL] \<and>
   LineNr (hd (SectionParser boundaryRe (''hello'' @ [NL] @ ''$ echo hi'' @ [NL]))) = 1 \<and>
   Name (hd (SectionParser boundaryRe (''hello'' @ [NL] @ ''$ echo hi'' @ [NL]))) = []"
proof -
  let ?s = "''$ echo hi'' @ [NL] @ ''hi'' @ [NL] @ ''stderr:'' @ [NL] @ ''oops'' @ [NL]"
  let ?t = "''hello'' @ [NL] @ ''$ echo hi'' @ [NL]"
  have h0: "last ?s = NL" by code_simp
  have h: "(?s = [] \<or> last ?s = NL) \<and>
    (\<forall>l \<in> set (linesOf ?s). boundaryRe l = [] \<or> wholeLineMatch boundaryRe l) \<and>
    (?s \<noteq> [] \<longrightarrow> boundaryRe (hd (linesOf ?s)) \<noteq> [])" by code_simp
  have n: "length (SectionParser boundaryRe ?s) = 2" by code_simp
  have t1: "?t \<noteq> []" by simp
  have t2: "boundaryRe (hd (linesOf ?t)) = []" by code_simp
  have a: "reassemble (SectionParser boundaryRe ?s) = ?s"
    using C2_lossless_when_whole_lines [where s = ?s and re = boundaryRe, THEN conjunct1,
        rule_format, OF h] .
  note T = C2_lossless_when_whole_lines [where s = ?t and re = boundaryRe, THEN conjunct2,
        rule_format, OF t1]
  have b: "LineNr (hd (SectionParser boundaryRe ?t)) = 1"
    using T by (rule conjunct2 [THEN conjunct1])
  have c: "Name (hd (SectionParser boundaryRe ?t)) = []"
    using T [THEN conjunct2, THEN conjunct2, THEN conjunct2] t2 by (rule mp)
  from h0 n a b c show ?thesis by (intro conjI)
qed

text \<open>
  Claim C2 as stated fails at a transcript whose first line is no boundary (the line
  \<open>hello\<close> is lost), at one that does not end in a newline, and at a fixture line with
  text after its colon.
\<close>

theorem C2_counterexample:
  "reassemble (SectionParser boundaryRe (''hello'' @ [NL] @ ''$ echo hi'' @ [NL] @ ''hi'' @ [NL]))
     = ''$ echo hi'' @ [NL] @ ''hi'' @ [NL] \<and>
   reassemble (SectionParser boundaryRe (''hello'' @ [NL] @ ''$ echo hi'' @ [NL] @ ''hi'' @ [NL]))
     \<noteq> ''hello'' @ [NL] @ ''$ echo hi'' @ [NL] @ ''hi'' @ [NL] \<and>
   reassemble (SectionParser boundaryRe (''$ echo hi'' @ [NL] @ ''hi''))
     \<noteq> ''$ echo hi'' @ [NL] @ ''hi'' \<and>
   reassemble (SectionParser boundaryRe (''/a:b'' @ [NL]))
     \<noteq> ''/a:b'' @ [NL]"
  by code_simp

subsection \<open>C3: the expected exit code\<close>

text \<open>
  Claim C3 says that the body of an \<open>exitcode:\<close> section is parsed as the integer. The
  boundary expression takes the whole line \<open>exitcode: 1\<close> as the header, and
  \<open>parseTestCases\<close> parses the header, not the body. Claim C3, as amended: at an
  \<open>exitcode:\<close> section the builder takes the rest of the header line after \<open>exitcode:\<close>,
  trims white space, parses it with \<open>strconv.Atoi\<close> and sets the expected exit code of the
  current invocation to the result (0 when the text is no number); the body of the
  section is ignored; an invocation without an \<open>exitcode:\<close> section has the expected
  exit code 0.
\<close>

theorem C3_exitcode_from_header:
  "(prefix ''exitcode:'' (Name sect) \<and> currentTestRun st = Some tcr \<longrightarrow>
      parseSection Split Parse st sect =
        Inr (st\<lparr>currentTestRun := Some (tcr\<lparr>expectedExitCode :=
               fst (Atoi (TrimSpace (TrimPrefix (Name sect) ''exitcode:'')))\<rparr>)\<rparr>)) \<and>
   (prefix ''exitcode:'' (Name sect) \<longrightarrow>
      parseSection Split Parse st (sect\<lparr>Value := v\<rparr>) = parseSection Split Parse st sect) \<and>
   (prefix ''$'' (Name dollar) \<and>
    (\<forall>sec \<in> set body. \<not> prefix ''$'' (Name sec) \<and> \<not> prefix ''exitcode:'' (Name sec)) \<and>
    parseSections Split Parse st (dollar # body) = Inr st' \<longrightarrow>
      (\<exists>tcr'. currentTestRun st' = Some tcr' \<and> lineNr tcr' = LineNr dollar \<and>
              expectedExitCode tcr' = 0))"
proof (intro conjI impI)
  assume "prefix ''exitcode:'' (Name sect) \<and> currentTestRun st = Some tcr"
  then show "parseSection Split Parse st sect =
        Inr (st\<lparr>currentTestRun := Some (tcr\<lparr>expectedExitCode :=
               fst (Atoi (TrimSpace (TrimPrefix (Name sect) ''exitcode:'')))\<rparr>)\<rparr>)"
    using parseSection_exitcode by blast
next
  assume p: "prefix ''exitcode:'' (Name sect)"
  show "parseSection Split Parse st (sect\<lparr>Value := v\<rparr>) = parseSection Split Parse st sect"
  proof (cases "currentTestRun st")
    case None
    with p exitcode_not_other [OF p] show ?thesis
      unfolding parseSection_def Let_def by simp
  next
    case (Some tcr)
    from p have p': "prefix ''exitcode:'' (Name (sect\<lparr>Value := v\<rparr>))" by simp
    show ?thesis
      unfolding parseSection_exitcode [OF p Some] parseSection_exitcode [OF p' Some] by simp
  qed
next
  assume a: "prefix ''$'' (Name dollar) \<and>
    (\<forall>sec \<in> set body. \<not> prefix ''$'' (Name sec) \<and> \<not> prefix ''exitcode:'' (Name sec)) \<and>
    parseSections Split Parse st (dollar # body) = Inr st'"
  then have 1: "prefix ''$'' (Name dollar)"
    and 2: "\<forall>sec \<in> set body. \<not> prefix ''$'' (Name sec)"
    and 3: "\<forall>sec \<in> set body. \<not> prefix ''exitcode:'' (Name sec)"
    and 4: "parseSections Split Parse st (dollar # body) = Inr st'" by simp_all
  from parseSections_invocation [OF 1 2 4] 3
  show "\<exists>tcr'. currentTestRun st' = Some tcr' \<and> lineNr tcr' = LineNr dollar \<and>
              expectedExitCode tcr' = 0"
    by blast
qed

text \<open>
  The amended claim at the section \<open>exitcode: 3\<close>, with an empty body and with the body
  \<open>7\<close>, and at an invocation followed by a \<open>stderr:\<close> section only.
\<close>

theorem C3_witness:
  "parseSection splitWords noTokens
     \<lparr>te_parts = [], currentTestRun = Some (newTestCaseRun 1 '' fq'' [] [''fq''] ''''), replDepth = 1\<rparr>
     \<lparr>LineNr = 2, Name = ''exitcode: 3'', Value = ''''\<rparr>
   = Inr \<lparr>te_parts = [],
          currentTestRun = Some ((newTestCaseRun 1 '' fq'' [] [''fq''] '''')\<lparr>expectedExitCode := 3\<rparr>),
          replDepth = 1\<rparr> \<and>
   parseSection splitWords noTokens
     \<lparr>te_parts = [], currentTestRun = Some (newTestCaseRun 1 '' fq'' [] [''fq''] ''''), replDepth = 1\<rparr>
     \<lparr>LineNr = 2, Name = ''exitcode: 3'', Value = ''7''\<rparr>
   = parseSection splitWords noTokens
     \<lparr>te_parts = [], currentTestRun = Some (newTestCaseRun 1 '' fq'' [] [''fq''] ''''), replDepth = 1\<rparr>
     \<lparr>LineNr = 2, Name = ''exitcode: 3'', Value = ''''\<rparr> \<and>
   (\<exists>tcr'. currentTestRun
             \<lparr>te_parts = [],
              currentTestRun = Some ((newTestCaseRun 1 '' fq'' [] [''fq''] (''out'' @ [NL]))
                                       \<lparr>expectedStderr := ''e'' @ [NL]\<rparr>),
              replDepth = 1\<rparr> = Some tcr' \<and>
           lineNr tcr' = 1 \<and> expectedExitCode tcr' = 0)"
proof -
  let ?st = "\<lparr>te_parts = [], currentTestRun = Some (newTestCaseRun 1 '' fq'' [] [''fq''] ''''), replDepth = 1\<rparr>"
  let ?sec = "\<lparr>LineNr = 2, Name = ''exitcode: 3'', Value = ''''\<rparr>"
  let ?init = "\<lparr>te_parts = [], currentTestRun = None, replDepth = 0\<rparr>"
  let ?dollar = "\<lparr>LineNr = 1, Name = ''$ fq'', Value = ''out'' @ [NL]\<rparr>"
  let ?body = "[\<lparr>LineNr = 3, Name = ''stderr:'', Value = ''e'' @ [NL]\<rparr>]"
  let ?final = "\<lparr>te_parts = [],
              currentTestRun = Some ((newTestCaseRun 1 '' fq'' [] [''fq''] (''out'' @ [NL]))
                                       \<lparr>expectedStderr := ''e'' @ [NL]\<rparr>),
              replDepth = 1\<rparr>"
  have h1: "prefix ''exitcode:'' (Name ?sec) \<and>
            currentTestRun ?st = Some (newTestCaseRun 1 '' fq'' [] [''fq''] '''')" by code_simp
  have h1': "prefix ''exitcode:'' (Name ?sec)" by code_simp
  have v: "fst (Atoi (TrimSpace (TrimPrefix (Name ?sec) ''exitcode:''))) = 3" by code_simp
  have h2: "prefix ''$'' (Name ?dollar) \<and>
    (\<forall>sec \<in> set ?body. \<not> prefix ''$'' (Name sec) \<and> \<not> prefix ''exitcode:'' (Name sec)) \<and>
    parseSections splitWords noTokens ?init (?dollar # ?body) = Inr ?final" by code_simp
  note T = C3_exitcode_from_header [where sect = ?sec and st = ?st and Split = splitWords
      and Parse = noTokens]
  have a: "parseSection splitWords noTokens ?st ?sec =
     Inr \<lparr>te_parts = [],
          currentTestRun = Some ((newTestCaseRun 1 '' fq'' [] [''fq''] '''')\<lparr>expectedExitCode := 3\<rparr>),
          replDepth = 1\<rparr>"
    using T [THEN conjunct1, rule_format, OF h1] unfolding v by simp
  have b: "parseSection splitWords noTokens ?st (?sec\<lparr>Value := ''7''\<rparr>)
         = parseSection splitWords noTokens ?st ?sec"
    using T [where v = "''7''", THEN conjunct2, THEN conjunct1, rule_format, OF h1'] by simp
  have c: "\<exists>tcr'. currentTestRun ?final = Some tcr' \<and> lineNr tcr' = LineNr ?dollar \<and>
              expectedExitCode tcr' = 0"
    using C3_exitcode_from_header [where Split = splitWords and Parse = noTokens
        and dollar = ?dollar and body = ?body and st = ?init and st' = ?final,
        THEN conjunct2, THEN conjunct2, rule_format, OF h2] .
  from a b c show ?thesis by simp
qed

text \<open>
  Claim C3 as stated fails: in the first transcript the body of the section is \<open>2\<close> and
  the expected exit code is 1; in the second the header is \<open>exitcode:\<close>, the body is \<open>3\<close>
  and the expected exit code is 0.
\<close>

theorem C3_counterexample:
  "Value (SectionParser boundaryRe (''$ fq'' @ [NL] @ ''exitcode: 1'' @ [NL] @ ''2'' @ [NL]) ! 1)
     = ''2'' @ [NL] \<and>
   fst (Atoi (TrimSpace (''2'' @ [NL]))) = 2 \<and>
   map expectedExitCode
     (parsedRuns (parseTestCases splitWords noTokens
        (''$ fq'' @ [NL] @ ''exitcode: 1'' @ [NL] @ ''2'' @ [NL]))) = [1] \<and>
   Value (SectionParser boundaryRe (''$ fq'' @ [NL] @ ''exitcode:'' @ [NL] @ ''3'' @ [NL]) ! 1)
     = ''3'' @ [NL] \<and>
   fst (Atoi (TrimSpace (''3'' @ [NL]))) = 3 \<and>
   map expectedExitCode
     (parsedRuns (parseTestCases splitWords noTokens
        (''$ fq'' @ [NL] @ ''exitcode:'' @ [NL] @ ''3'' @ [NL]))) = [0]"
  by code_simp

subsection \<open>C4: the escape decoder\<close>

text \<open>
  Claim C4 says that every backslash sequence other than the listed ones passes through
  unchanged. The expression accepts after \<open>\0x\<close> any two bytes of the range \<open>0\<close> to \<open>f\<close>,
  and the error of \<open>hex.DecodeString\<close> is discarded, so such a match with a byte that is
  no hex digit is replaced by nothing. Claim C4, as amended: scanning from the left,
  Unescape replaces \<open>\n\<close>, \<open>\r\<close>, \<open>\t\<close> and \<open>\b\<close> by the control byte, \<open>\0b\<close> followed by 8
  binary digits by the byte the digits denote, \<open>\0x\<close> followed by two hex digits (of
  either case) by that byte, and \<open>\0x\<close> followed by two bytes of the range \<open>0\<close> to \<open>f\<close> that
  are not both hex digits by the empty text; where the expression does not match, in
  particular at every byte that is no backslash, the byte is copied, and a text without
  a backslash is returned as it is. \<open>Unescape\<close> is a total function: its recursion
  terminates on every text and no branch of it fails.
\<close>

theorem C4_unescape:
  "Unescape (BSL # CHR ''n'' # s) = NL # Unescape s \<and>
   Unescape (BSL # CHR ''r'' # s) = CR # Unescape s \<and>
   Unescape (BSL # CHR ''t'' # s) = TAB # Unescape s \<and>
   Unescape (BSL # CHR ''b'' # s) = BS # Unescape s \<and>
   (length bits = 8 \<and> list_all isBinDigit bits \<longrightarrow>
      Unescape ([BSL, CHR ''0'', CHR ''b''] @ bits @ s) = char_of (bitsToNat bits) # Unescape s) \<and>
   (fromHexChar h = Some x \<and> fromHexChar l = Some y \<longrightarrow>
      Unescape ([BSL, CHR ''0'', CHR ''x'', h, l] @ s) = char_of (16 * x + y) # Unescape s) \<and>
   (inRange0f h \<and> inRange0f l \<and> (fromHexChar h = None \<or> fromHexChar l = None) \<longrightarrow>
      Unescape ([BSL, CHR ''0'', CHR ''x'', h, l] @ s) = Unescape s) \<and>
   (unescapeReMatch (c # s) = None \<longrightarrow> Unescape (c # s) = c # Unescape s) \<and>
   (c \<noteq> BSL \<longrightarrow> Unescape (c # s) = c # Unescape s) \<and>
   (BSL \<notin> set s \<longrightarrow> Unescape s = s)"
proof (intro conjI impI)
  show "Unescape (BSL # CHR ''n'' # s) = NL # Unescape s"
    by (subst Unescape_simple) (simp_all add: unescapeFn_def)
  show "Unescape (BSL # CHR ''r'' # s) = CR # Unescape s"
    by (subst Unescape_simple) (simp_all add: unescapeFn_def)
  show "Unescape (BSL # CHR ''t'' # s) = TAB # Unescape s"
    by (subst Unescape_simple) (simp_all add: unescapeFn_def)
  show "Unescape (BSL # CHR ''b'' # s) = BS # Unescape s"
    by (subst Unescape_simple) (simp_all add: unescapeFn_def)
next
  assume "length bits = 8 \<and> list_all isBinDigit bits"
  then show "Unescape ([BSL, CHR ''0'', CHR ''b''] @ bits @ s) = char_of (bitsToNat bits) # Unescape s"
    using Unescape_bits by blast
next
  assume a: "fromHexChar h = Some x \<and> fromHexChar l = Some y"
  then have "inRange0f h" "inRange0f l" by (auto dest: fromHexChar_inRange0f)
  from Unescape_hex_match [OF this] a
  show "Unescape ([BSL, CHR ''0'', CHR ''x'', h, l] @ s) = char_of (16 * x + y) # Unescape s"
    by simp
next
  assume a: "inRange0f h \<and> inRange0f l \<and> (fromHexChar h = None \<or> fromHexChar l = None)"
  then have "fst (hex_DecodeString [h, l]) = []"
    by (auto split: option.split)
  with Unescape_hex_match [of h l s] a
  show "Unescape ([BSL, CHR ''0'', CHR ''x'', h, l] @ s) = Unescape s" by simp
next
  assume "unescapeReMatch (c # s) = None"
  then show "Unescape (c # s) = c # Unescape s" by (rule Unescape_no_match)
next
  assume "c \<noteq> BSL"
  then show "Unescape (c # s) = c # Unescape s"
    by (simp add: unescapeReMatch_not_bsl)
next
  assume "BSL \<notin> set s"
  then show "Unescape s = s" by (rule Unescape_no_backslash)
qed

text \<open>
  The amended claim at \<open>\0x41\<close> and \<open>\0b01000001\<close> (both decode to \<open>A\<close>), at \<open>\0x4Gz\<close>, at the
  unknown escape \<open>\q\<close> and at a text without escapes.
\<close>

theorem C4_witness:
  "Unescape [BSL, CHR ''0'', CHR ''x'', CHR ''4'', CHR ''1''] = ''A'' \<and>
   Unescape ([BSL, CHR ''0'', CHR ''b''] @ ''01000001'') = ''A'' \<and>
   Unescape ([BSL, CHR ''0'', CHR ''x'', CHR ''4'', CHR ''G''] @ ''z'') = ''z'' \<and>
   Unescape [BSL, CHR ''q''] = [BSL, CHR ''q''] \<and>
   Unescape ''abc'' = ''abc''"
proof -
  have b1: "length ''01000001'' = 8 \<and> list_all isBinDigit ''01000001''" by code_simp
  have b2: "char_of (bitsToNat ''01000001'') = CHR ''A''" by code_simp
  have h1: "fromHexChar (CHR ''4'') = Some 4 \<and> fromHexChar (CHR ''1'') = Some 1" by code_simp
  have h2: "char_of (16 * 4 + (1::nat)) = CHR ''A''" by code_simp
  have g1: "inRange0f (CHR ''4'') \<and> inRange0f (CHR ''G'') \<and>
            (fromHexChar (CHR ''4'') = None \<or> fromHexChar (CHR ''G'') = None)" by code_simp
  have q1: "unescapeReMatch [BSL, CHR ''q''] = None" by code_simp
  have q2: "unescapeReMatch ''q'' = None" by code_simp
  have n1: "BSL \<notin> set ''abc''" by code_simp
  have e: "Unescape [] = []" by simp
  have z: "Unescape ''z'' = ''z''"
    using C4_unescape [where s = "''z''", THEN conjunct2, THEN conjunct2, THEN conjunct2,
      THEN conjunct2, THEN conjunct2, THEN conjunct2, THEN conjunct2, THEN conjunct2, THEN conjunct2]
    by simp
  have a: "Unescape [BSL, CHR ''0'', CHR ''x'', CHR ''4'', CHR ''1''] = ''A''"
    using C4_unescape [where s = "[]" and h = "CHR ''4''" and l = "CHR ''1''" and x = 4 and y = 1,
      THEN conjunct2, THEN conjunct2, THEN conjunct2, THEN conjunct2, THEN conjunct2, THEN conjunct1,
      rule_format, OF h1]
    unfolding h2 e by simp
  have b: "Unescape ([BSL, CHR ''0'', CHR ''b''] @ ''01000001'') = ''A''"
    using C4_unescape [where s = "[]" and bits = "''01000001''",
      THEN conjunct2, THEN conjunct2, THEN conjunct2, THEN conjunct2, THEN conjunct1,
      rule_format, OF b1]
    unfolding b2 e by simp
  have c: "Unescape ([BSL, CHR ''0'', CHR ''x'', CHR ''4'', CHR ''G''] @ ''z'') = ''z''"
    using C4_unescape [where s = "''z''" and h = "CHR ''4''" and l = "CHR ''G''",
      THEN conjunct2, THEN conjunct2, THEN conjunct2, THEN conjunct2, THEN conjunct2, THEN conjunct2,
      THEN conjunct1, rule_format, OF g1]
    unfolding z .
  have q: "Unescape ''q'' = ''q''"
    using C4_unescape [where s = "[]" and c = "CHR ''q''",
      THEN conjunct2, THEN conjunct2, THEN conjunct2, THEN conjunct2, THEN conjunct2, THEN conjunct2,
      THEN conjunct2, THEN conjunct1, rule_format, OF q2]
    unfolding e .
  have d: "Unescape [BSL, CHR ''q''] = [BSL, CHR ''q'']"
    using C4_unescape [where s = "''q''" and c = BSL,
      THEN conjunct2, THEN conjunct2, THEN conjunct2, THEN conjunct2, THEN conjunct2, THEN conjunct2,
      THEN conjunct2, THEN conjunct1, rule_format, OF q1]
    unfolding q .
  have f: "Unescape ''abc'' = ''abc''"
    using C4_unescape [where s = "''abc''",
      THEN conjunct2, THEN conjunct2, THEN conjunct2, THEN conjunct2, THEN conjunct2, THEN conjunct2,
      THEN conjunct2, THEN conjunct2, THEN conjunct2, rule_format, OF n1] .
  from a b c d f show ?thesis by (intro conjI)
qed

text \<open>
  Claim C4 as stated fails at \<open>\0xGG\<close>: \<open>G\<close> is no hex digit, and the text does not pass
  through unchanged but decodes to the empty text.
\<close>

theorem C4_counterexample:
  "fromHexChar (CHR ''G'') = None \<and>
   Unescape [BSL, CHR ''0'', CHR ''x'', CHR ''G'', CHR ''G''] = [] \<and>
   Unescape [BSL, CHR ''0'', CHR ''x'', CHR ''G'', CHR ''G''] \<noteq> [BSL, CHR ''0'', CHR ''x'', CHR ''G'', CHR ''G'']"
  by code_simp

subsection \<open>C5: completion requests\<close>

text \<open>
  Claim C5: when the decoded input of the consumed turn ends in a tab, \<open>Readline\<close> writes
  (after the prompt) the raw input line and a newline to the captured stdout, calls the
  completion function with the decoded input without its last byte and with the length
  of that text as position, writes each candidate followed by a newline, and returns the
  empty line and no error.
\<close>

theorem C5_readline_completion:
  assumes "readlinesPos tcr < length (readlines tcr)"
    and "suffix [TAB] (nextLine tcr)"
  shows "Readline tcr prompt complete =
     (('''', None),
      tcr\<lparr>actualStdoutBuf :=
            actualStdoutBuf tcr @ prompt @
            rl_input (readlines tcr ! readlinesPos tcr) @ [NL] @
            concat (map (\<lambda>nl. nl @ [NL])
              (fst (complete (butlast (nextLine tcr)) (int (length (butlast (nextLine tcr))))))),
          readlinesPos := readlinesPos tcr + 1,
          readlineEnv := rl_env (readlines tcr ! readlinesPos tcr)\<rparr>)"
  using assms unfolding nextLine_def
  by (simp add: Readline_completion turnEcho_def Let_def)

theorem C5_witness:
  "readlinesPos (mkRun [mkTurn (''fo'' @ [BSL, CHR ''t'']) [] (''fo'' @ [BSL, CHR ''t''])]) <
     length (readlines (mkRun [mkTurn (''fo'' @ [BSL, CHR ''t'']) [] (''fo'' @ [BSL, CHR ''t''])])) \<and>
   nextLine (mkRun [mkTurn (''fo'' @ [BSL, CHR ''t'']) [] (''fo'' @ [BSL, CHR ''t''])]) = ''fo'' @ [TAB] \<and>
   suffix [TAB] (nextLine (mkRun [mkTurn (''fo'' @ [BSL, CHR ''t'']) [] (''fo'' @ [BSL, CHR ''t''])])) \<and>
   fst (Readline (mkRun [mkTurn (''fo'' @ [BSL, CHR ''t'']) [] (''fo'' @ [BSL, CHR ''t''])]) ''> '' exampleComplete)
     = ('''', None) \<and>
   actualStdoutBuf (snd (Readline (mkRun [mkTurn (''fo'' @ [BSL, CHR ''t'']) [] (''fo'' @ [BSL, CHR ''t''])]) ''> '' exampleComplete))
     = ''> fo'' @ [BSL, CHR ''t'', NL] @ ''foo'' @ [NL] @ ''for'' @ [NL]"
proof -
  let ?r = "mkRun [mkTurn (''fo'' @ [BSL, CHR ''t'']) [] (''fo'' @ [BSL, CHR ''t''])]"
  have h1: "readlinesPos ?r < length (readlines ?r)" by code_simp
  have n: "nextLine ?r = ''fo'' @ [TAB]" by code_simp
  have h2: "suffix [TAB] (nextLine ?r)" by code_simp
  have e: "actualStdoutBuf ?r @ ''> '' @ rl_input (readlines ?r ! readlinesPos ?r) @ [NL] @
            concat (map (\<lambda>nl. nl @ [NL])
              (fst (exampleComplete (butlast (nextLine ?r)) (int (length (butlast (nextLine ?r)))))))
           = ''> fo'' @ [BSL, CHR ''t'', NL] @ ''foo'' @ [NL] @ ''for'' @ [NL]"
    by code_simp
  note R = C5_readline_completion [OF h1 h2, of "''> ''" exampleComplete]
  have a: "fst (Readline ?r ''> '' exampleComplete) = ('''', None)"
    unfolding R by simp
  have b: "actualStdoutBuf (snd (Readline ?r ''> '' exampleComplete))
     = ''> fo'' @ [BSL, CHR ''t'', NL] @ ''foo'' @ [NL] @ ''for'' @ [NL]"
    unfolding R using e by simp
  from h1 n h2 a b show ?thesis by blast
qed

subsection \<open>C6: end of stream\<close>

text \<open>
  Claim C6: \<open>Readline\<close> returns the error \<open>EOF\<close> exactly when no turn remains or the
  decoded input of the consumed turn does not end in a tab and is \<open>^D\<close>; in every other
  case without a completion request it returns the decoded input and no error; in the
  \<open>^D\<close> case the returned line is empty.
\<close>

theorem C6_readline_eof:
  "(snd (fst (Readline tcr prompt complete)) = Some EOF \<longleftrightarrow>
      (length (readlines tcr) \<le> readlinesPos tcr \<or>
       (readlinesPos tcr < length (readlines tcr) \<and>
        \<not> suffix [TAB] (nextLine tcr) \<and> nextLine tcr = ''^D''))) \<and>
   (readlinesPos tcr < length (readlines tcr) \<and> \<not> suffix [TAB] (nextLine tcr) \<and>
    nextLine tcr \<noteq> ''^D'' \<longrightarrow>
      fst (Readline tcr prompt complete) = (nextLine tcr, None)) \<and>
   (readlinesPos tcr < length (readlines tcr) \<and> nextLine tcr = ''^D'' \<longrightarrow>
      fst (Readline tcr prompt complete) = ('''', Some EOF))"
proof (cases "readlinesPos tcr < length (readlines tcr)")
  case False
  then show ?thesis by (simp add: Readline_exhausted)
next
  case True
  show ?thesis
  proof (cases "suffix [TAB] (nextLine tcr)")
    case tab: True
    then have "nextLine tcr \<noteq> ''^D''" by (auto simp: suffix_def)
    with True tab show ?thesis
      unfolding nextLine_def by (simp add: Readline_completion)
  next
    case False
    with True show ?thesis
      unfolding nextLine_def by (simp add: Readline_line)
  qed
qed

theorem C6_witness:
  "snd (fst (Readline (mkRun []) ''> '' noComplete)) = Some EOF \<and>
   nextLine (mkRun [mkTurn ''^D'' [] ''^D'']) = ''^D'' \<and>
   fst (Readline (mkRun [mkTurn ''^D'' [] ''^D'']) ''> '' noComplete) = ('''', Some EOF) \<and>
   nextLine (mkRun [mkTurn ''.a'' [] ''.a'']) = ''.a'' \<and>
   fst (Readline (mkRun [mkTurn ''.a'' [] ''.a'']) ''> '' noComplete) = (''.a'', None) \<and>
   snd (fst (Readline (mkRun [mkTurn ''.a'' [] ''.a'']) ''> '' noComplete)) \<noteq> Some EOF"
proof -
  let ?r0 = "mkRun []"
  let ?r1 = "mkRun [mkTurn ''^D'' [] ''^D'']"
  let ?r2 = "mkRun [mkTurn ''.a'' [] ''.a'']"
  have p0: "length (readlines ?r0) \<le> readlinesPos ?r0" by code_simp
  have p1: "readlinesPos ?r1 < length (readlines ?r1)" by code_simp
  have n1: "nextLine ?r1 = ''^D''" by code_simp
  have t1: "\<not> suffix [TAB] (nextLine ?r1)" by code_simp
  have p2: "readlinesPos ?r2 < length (readlines ?r2)" by code_simp
  have n2: "nextLine ?r2 = ''.a''" by code_simp
  have t2: "\<not> suffix [TAB] (nextLine ?r2)" by code_simp
  have d2: "nextLine ?r2 \<noteq> ''^D''" by code_simp
  have a0: "snd (fst (Readline ?r0 ''> '' noComplete)) = Some EOF"
    using C6_readline_eof [of ?r0 "''> ''" noComplete] p0 by blast
  have a1: "fst (Readline ?r1 ''> '' noComplete) = ('''', Some EOF)"
    using C6_readline_eof [of ?r1 "''> ''" noComplete] p1 n1 by blast
  have a2: "fst (Readline ?r2 ''> '' noComplete) = (nextLine ?r2, None)"
    using C6_readline_eof [of ?r2 "''> ''" noComplete] p2 t2 d2 by blast
  have a3: "snd (fst (Readline ?r2 ''> '' noComplete)) \<noteq> Some EOF"
    using C6_readline_eof [of ?r2 "''> ''" noComplete] p2 d2 by auto
  from a0 n1 a1 n2 a2 a3 show ?thesis by simp
qed

subsection \<open>C7: the expected stdout\<close>

text \<open>
  Claim C7: for an invocation without dialog turns \<open>ToExpectedStdout\<close> is the expected
  stdout, which the builder sets to the body of the invocation's section without a
  trailing backslash-newline and never changes afterwards; for an invocation with turns
  it is the concatenation, in order, of each turn's expected prompt, its expression, a
  newline and its expected output (appending an empty output changes nothing).
\<close>

theorem C7_expected_stdout:
  "(readlines tcr = [] \<longrightarrow> ToExpectedStdout tcr = expectedStdout tcr) \<and>
   (readlines tcr \<noteq> [] \<longrightarrow>
      ToExpectedStdout tcr =
        concat (map (\<lambda>rl. rl_expectedPrompt rl @ rl_expr rl @ [NL] @ rl_expectedStdout rl)
                    (readlines tcr))) \<and>
   (prefix ''$'' (Name dollar) \<and> (\<forall>sec \<in> set body. \<not> prefix ''$'' (Name sec)) \<and>
    parseSections Split Parse st (dollar # body) = Inr st' \<longrightarrow>
      (\<exists>tcr'. currentTestRun st' = Some tcr' \<and> lineNr tcr' = LineNr dollar \<and>
              expectedStdout tcr' = TrimSuffix (Value dollar) [BSL, NL] \<and>
              (readlines tcr' = [] \<longrightarrow>
                 ToExpectedStdout tcr' = TrimSuffix (Value dollar) [BSL, NL])))"
proof (intro conjI impI)
  assume "readlines tcr = []"
  then show "ToExpectedStdout tcr = expectedStdout tcr"
    by (simp add: ToExpectedStdout_def)
next
  assume "readlines tcr \<noteq> []"
  then show "ToExpectedStdout tcr =
        concat (map (\<lambda>rl. rl_expectedPrompt rl @ rl_expr rl @ [NL] @ rl_expectedStdout rl)
                    (readlines tcr))"
    by (rule ToExpectedStdout_turns)
next
  assume a: "prefix ''$'' (Name dollar) \<and> (\<forall>sec \<in> set body. \<not> prefix ''$'' (Name sec)) \<and>
    parseSections Split Parse st (dollar # body) = Inr st'"
  then have 1: "prefix ''$'' (Name dollar)"
    and 2: "\<forall>sec \<in> set body. \<not> prefix ''$'' (Name sec)"
    and 4: "parseSections Split Parse st (dollar # body) = Inr st'" by simp_all
  from parseSections_invocation [OF 1 2 4]
  obtain tcr' where "currentTestRun st' = Some tcr'" "lineNr tcr' = LineNr dollar"
    "expectedStdout tcr' = TrimSuffix (Value dollar) [BSL, NL]" by blast
  then show "\<exists>tcr'. currentTestRun st' = Some tcr' \<and> lineNr tcr' = LineNr dollar \<and>
              expectedStdout tcr' = TrimSuffix (Value dollar) [BSL, NL] \<and>
              (readlines tcr' = [] \<longrightarrow>
                 ToExpectedStdout tcr' = TrimSuffix (Value dollar) [BSL, NL])"
    by (simp add: ToExpectedStdout_def)
qed

text \<open>
  The claim at an invocation without turns, at one with two turns, and at the section
  \<open>$ echo -n hi\<close> whose body ends in the continuation marker.
\<close>

theorem C7_witness:
  "ToExpectedStdout (newTestCaseRun 1 '' echo hi'' [] [''echo'', ''hi''] (''hi'' @ [NL])) = ''hi'' @ [NL] \<and>
   ToExpectedStdout ((newTestCaseRun 1 '' fq -i'' [] [''fq'', ''-i''] '''')
       \<lparr>readlines :=
          [\<lparr>rl_expr = ''1+1'', rl_env = [], rl_input = ''1+1'', rl_expectedPrompt = ''null> '',
            rl_expectedStdout = ''2'' @ [NL]\<rparr>,
           \<lparr>rl_expr = ''^D'', rl_env = [], rl_input = ''^D'', rl_expectedPrompt = ''null> '',
            rl_expectedStdout = ''''\<rparr>]\<rparr>)
     = ''null> 1+1'' @ [NL] @ ''2'' @ [NL] @ ''null> ^D'' @ [NL] \<and>
   parseSections splitWords noTokens \<lparr>te_parts = [], currentTestRun = None, replDepth = 0\<rparr>
     [\<lparr>LineNr = 1, Name = ''$ echo -n hi'', Value = ''hi'' @ [BSL, NL]\<rparr>]
     = Inr \<lparr>te_parts = [],
            currentTestRun = Some (newTestCaseRun 1 '' echo -n hi'' [] [''echo'', ''-n'', ''hi''] ''hi''),
            replDepth = 1\<rparr> \<and>
   ToExpectedStdout (newTestCaseRun 1 '' echo -n hi'' [] [''echo'', ''-n'', ''hi''] ''hi'') = ''hi''"
proof -
  let ?ra = "newTestCaseRun 1 '' echo hi'' [] [''echo'', ''hi''] (''hi'' @ [NL])"
  let ?rb = "(newTestCaseRun 1 '' fq -i'' [] [''fq'', ''-i''] '''')
       \<lparr>readlines :=
          [\<lparr>rl_expr = ''1+1'', rl_env = [], rl_input = ''1+1'', rl_expectedPrompt = ''null> '',
            rl_expectedStdout = ''2'' @ [NL]\<rparr>,
           \<lparr>rl_expr = ''^D'', rl_env = [], rl_input = ''^D'', rl_expectedPrompt = ''null> '',
            rl_expectedStdout = ''''\<rparr>]\<rparr>"
  let ?init = "\<lparr>te_parts = [], currentTestRun = None, replDepth = 0\<rparr>"
  let ?dollar = "\<lparr>LineNr = 1, Name = ''$ echo -n hi'', Value = ''hi'' @ [BSL, NL]\<rparr>"
  let ?rc = "newTestCaseRun 1 '' echo -n hi'' [] [''echo'', ''-n'', ''hi''] ''hi''"
  let ?final = "\<lparr>te_parts = [], currentTestRun = Some ?rc, replDepth = 1\<rparr>"
  have h1: "readlines ?ra = []" by (simp add: newTestCaseRun_def)
  have e1: "expectedStdout ?ra = ''hi'' @ [NL]" by (simp add: newTestCaseRun_def)
  have h2: "readlines ?rb \<noteq> []" by simp
  have e2: "concat (map (\<lambda>rl. rl_expectedPrompt rl @ rl_expr rl @ [NL] @ rl_expectedStdout rl)
                    (readlines ?rb)) = ''null> 1+1'' @ [NL] @ ''2'' @ [NL] @ ''null> ^D'' @ [NL]"
    by simp
  have p: "parseSections splitWords noTokens ?init [?dollar] = Inr ?final" by code_simp
  have h3: "prefix ''$'' (Name ?dollar) \<and> (\<forall>sec \<in> set []. \<not> prefix ''$'' (Name sec)) \<and>
    parseSections splitWords noTokens ?init (?dollar # []) = Inr ?final"
    using p by simp
  have t: "TrimSuffix (Value ?dollar) [BSL, NL] = ''hi''" by code_simp
  have r3: "readlines ?rc = []" by (simp add: newTestCaseRun_def)
  have a: "ToExpectedStdout ?ra = ''hi'' @ [NL]"
    using C7_expected_stdout [where tcr = ?ra, THEN conjunct1, rule_format, OF h1] unfolding e1 .
  have b: "ToExpectedStdout ?rb = ''null> 1+1'' @ [NL] @ ''2'' @ [NL] @ ''null> ^D'' @ [NL]"
    using C7_expected_stdout [where tcr = ?rb, THEN conjunct2, THEN conjunct1, rule_format, OF h2]
    unfolding e2 .
  from C7_expected_stdout [where dollar = ?dollar and body = "[]" and Split = splitWords
        and Parse = noTokens and st = ?init and st' = ?final,
        THEN conjunct2, THEN conjunct2, rule_format, OF h3]
  obtain tcr' where c: "currentTestRun ?final = Some tcr'"
    and d: "readlines tcr' = [] \<longrightarrow> ToExpectedStdout tcr' = TrimSuffix (Value ?dollar) [BSL, NL]"
    by blast
  from c have "tcr' = ?rc" by simp
  with d r3 t have e: "ToExpectedStdout ?rc = ''hi''" by simp
  from a b p e show ?thesis by (intro conjI)
qed

subsection \<open>C8: the rewritten transcript\<close>

text \<open>
  Claim C8: \<open>ToActual\<close> renders the parts in ascending order of their lines (the order
  is a sorted permutation of the parts, and when the lines are distinct every sorted
  permutation gives the same text); an invocation is rendered as \<open>$\<close> and its command
  line, then the actual stdout, followed by a backslash-newline exactly when it is not
  empty and does not end in a newline, then an \<open>exitcode:\<close> line exactly when the actual
  exit code is not 0, a \<open>stdin:\<close> block exactly when stdin is not empty and a \<open>stderr:\<close>
  block exactly when the actual stderr is not empty; and in rewrite mode a file is
  written only for a test case of which at least one invocation was replayed.
\<close>

theorem C8_to_actual:
  "sorted (map Line (sort_key Line (parts tc))) \<and>
   mset (sort_key Line (parts tc)) = mset (parts tc) \<and>
   ToActual tc = concat (map partToActual (sort_key Line (parts tc))) \<and>
   (distinct (map Line (parts tc)) \<and> mset ps = mset (parts tc) \<and> sorted (map Line ps) \<longrightarrow>
      ToActual tc = concat (map partToActual ps)) \<and>
   partToActual (PartRun p) =
     ''$'' @ command p @ [NL] @
     actualStdoutBuf p @
     (if actualStdoutBuf p \<noteq> [] \<and> \<not> suffix [NL] (actualStdoutBuf p) then [BSL, NL] else []) @
     (if actualExitCode p \<noteq> 0 then ''exitcode: '' @ showInt (actualExitCode p) @ [NL] else []) @
     (if stdin p \<noteq> [] then ''stdin:'' @ [NL] @ stdin p else []) @
     (if actualStderrBuf p \<noteq> [] then ''stderr:'' @ [NL] @ actualStderrBuf p else []) \<and>
   (wasTested (replayTestCase replay tc) \<longleftrightarrow>
      wasTested tc \<or> (\<exists>tcr \<in> set (runsOf (parts tc)). replay tcr \<noteq> None)) \<and>
   (f \<in> set (writeActuals w (map (replayTestCase replay) tcs)) \<and>
    (\<forall>t \<in> set tcs. \<not> wasTested t) \<longrightarrow>
      w \<and> (\<exists>t \<in> set tcs. (\<exists>tcr \<in> set (runsOf (parts t)). replay tcr \<noteq> None) \<and>
                f = (path (replayTestCase replay t), ToActual (replayTestCase replay t))))"
proof (intro conjI impI)
  show "sorted (map Line (sort_key Line (parts tc)))" by simp
  show "mset (sort_key Line (parts tc)) = mset (parts tc)" by simp
  show "ToActual tc = concat (map partToActual (sort_key Line (parts tc)))"
    by (rule ToActual_concat)
next
  assume a: "distinct (map Line (parts tc)) \<and> mset ps = mset (parts tc) \<and> sorted (map Line ps)"
  then have "sort_key Line (parts tc) = ps"
    using sorted_distinct_unique [of ps "parts tc" Line] by blast
  then show "ToActual tc = concat (map partToActual ps)"
    by (simp add: ToActual_concat)
next
  show "partToActual (PartRun p) =
     ''$'' @ command p @ [NL] @
     actualStdoutBuf p @
     (if actualStdoutBuf p \<noteq> [] \<and> \<not> suffix [NL] (actualStdoutBuf p) then [BSL, NL] else []) @
     (if actualExitCode p \<noteq> 0 then ''exitcode: '' @ showInt (actualExitCode p) @ [NL] else []) @
     (if stdin p \<noteq> [] then ''stdin:'' @ [NL] @ stdin p else []) @
     (if actualStderrBuf p \<noteq> [] then ''stderr:'' @ [NL] @ actualStderrBuf p else [])"
    using runToActual_blocks [of p] by simp
next
  show "wasTested (replayTestCase replay tc) \<longleftrightarrow>
      wasTested tc \<or> (\<exists>tcr \<in> set (runsOf (parts tc)). replay tcr \<noteq> None)"
    by (rule replayTestCase_tested)
next
  assume a: "f \<in> set (writeActuals w (map (replayTestCase replay) tcs)) \<and>
    (\<forall>t \<in> set tcs. \<not> wasTested t)"
  then show w by (auto simp: writeActuals_def split: if_splits)
  from a obtain t where t: "t \<in> set tcs" and wt: "wasTested (replayTestCase replay t)"
    and f: "f = (path (replayTestCase replay t), ToActual (replayTestCase replay t))"
    by (auto simp: writeActuals_def split: if_splits)
  from a t have "\<not> wasTested t" by blast
  with wt have "\<exists>tcr \<in> set (runsOf (parts t)). replay tcr \<noteq> None"
    by (simp add: replayTestCase_tested)
  with t f show "\<exists>t \<in> set tcs. (\<exists>tcr \<in> set (runsOf (parts t)). replay tcr \<noteq> None) \<and>
                f = (path (replayTestCase replay t), ToActual (replayTestCase replay t))"
    by blast
qed

text \<open>
  The claim at a test case whose parts are out of order, at an invocation without any
  output, at a test case of which no invocation is replayed (nothing is written) and at
  one whose invocation is replayed.
\<close>

theorem C8_witness:
  "ToActual \<lparr>path = ''a.fqtest'',
             parts = [PartRun ((newTestCaseRun 2 '' fq'' [] [''fq''] '''')
                        \<lparr>stdin := ''in'' @ [NL], actualStdoutBuf := ''out'',
                         actualStderrBuf := ''err'' @ [NL], actualExitCode := 3\<rparr>),
                      PartComment 1 '' c''],
             wasTested = False\<rparr>
     = ''# c'' @ [NL] @ ''$ fq'' @ [NL] @ ''out'' @ [BSL, NL] @ ''exitcode: 3'' @ [NL] @
       ''stdin:'' @ [NL] @ ''in'' @ [NL] @ ''stderr:'' @ [NL] @ ''err'' @ [NL] \<and>
   partToActual (PartRun (newTestCaseRun 2 '' true'' [] [''true''] '''')) = ''$ true'' @ [NL] \<and>
   \<not> wasTested (replayTestCase replayNone
        \<lparr>path = ''a.fqtest'', parts = [PartRun (newTestCaseRun 1 '' fq'' [] [''fq''] '''')],
         wasTested = False\<rparr>) \<and>
   writeActuals True [replayTestCase replayNone
        \<lparr>path = ''a.fqtest'', parts = [PartRun (newTestCaseRun 1 '' fq'' [] [''fq''] '''')],
         wasTested = False\<rparr>] = [] \<and>
   (\<exists>t \<in> set [\<lparr>path = ''a.fqtest'', parts = [PartRun (newTestCaseRun 1 '' fq'' [] [''fq''] '''')],
                 wasTested = False\<rparr>].
      (\<exists>tcr \<in> set (runsOf (parts t)). replayAll tcr \<noteq> None) \<and>
      (''a.fqtest'', ''$ fq'' @ [NL] @ ''out'' @ [BSL, NL])
        = (path (replayTestCase replayAll t), ToActual (replayTestCase replayAll t)))"
proof -
  let ?r = "(newTestCaseRun 2 '' fq'' [] [''fq''] '''')
                        \<lparr>stdin := ''in'' @ [NL], actualStdoutBuf := ''out'',
                         actualStderrBuf := ''err'' @ [NL], actualExitCode := 3\<rparr>"
  let ?tc = "\<lparr>path = ''a.fqtest'', parts = [PartRun ?r, PartComment 1 '' c''], wasTested = False\<rparr>"
  let ?ps = "[PartComment 1 '' c'', PartRun ?r]"
  let ?q = "newTestCaseRun 2 '' true'' [] [''true''] ''''"
  let ?t = "\<lparr>path = ''a.fqtest'', parts = [PartRun (newTestCaseRun 1 '' fq'' [] [''fq''] '''')],
         wasTested = False\<rparr>"
  let ?f = "(''a.fqtest'', ''$ fq'' @ [NL] @ ''out'' @ [BSL, NL])"
  have d: "distinct (map Line (parts ?tc))" by code_simp
  have m: "mset ?ps = mset (parts ?tc)" by (simp add: add_mset_commute)
  have s: "sorted (map Line ?ps)" by code_simp
  have e: "concat (map partToActual ?ps)
     = ''# c'' @ [NL] @ ''$ fq'' @ [NL] @ ''out'' @ [BSL, NL] @ ''exitcode: 3'' @ [NL] @
       ''stdin:'' @ [NL] @ ''in'' @ [NL] @ ''stderr:'' @ [NL] @ ''err'' @ [NL]"
    by code_simp
  have a: "ToActual ?tc = ''# c'' @ [NL] @ ''$ fq'' @ [NL] @ ''out'' @ [BSL, NL] @ ''exitcode: 3'' @ [NL] @
       ''stdin:'' @ [NL] @ ''in'' @ [NL] @ ''stderr:'' @ [NL] @ ''err'' @ [NL]"
    using C8_to_actual [where tc = ?tc and ps = ?ps, THEN conjunct2, THEN conjunct2, THEN conjunct2,
        THEN conjunct1, rule_format, OF conjI [OF d conjI [OF m s]]]
    unfolding e .
  have q: "''$'' @ command ?q @ [NL] @
     actualStdoutBuf ?q @
     (if actualStdoutBuf ?q \<noteq> [] \<and> \<not> suffix [NL] (actualStdoutBuf ?q) then [BSL, NL] else []) @
     (if actualExitCode ?q \<noteq> 0 then ''exitcode: '' @ showInt (actualExitCode ?q) @ [NL] else []) @
     (if stdin ?q \<noteq> [] then ''stdin:'' @ [NL] @ stdin ?q else []) @
     (if actualStderrBuf ?q \<noteq> [] then ''stderr:'' @ [NL] @ actualStderrBuf ?q else [])
     = ''$ true'' @ [NL]" by code_simp
  have b: "partToActual (PartRun ?q) = ''$ true'' @ [NL]"
    using C8_to_actual [where p = ?q, THEN conjunct2, THEN conjunct2, THEN conjunct2,
        THEN conjunct2, THEN conjunct1]
    unfolding q .
  have n: "\<not> (wasTested ?t \<or> (\<exists>tcr \<in> set (runsOf (parts ?t)). replayNone tcr \<noteq> None))"
    by code_simp
  have c: "\<not> wasTested (replayTestCase replayNone ?t)"
    using C8_to_actual [where tc = ?t and replay = replayNone, THEN conjunct2, THEN conjunct2,
        THEN conjunct2, THEN conjunct2, THEN conjunct2, THEN conjunct1] n
    by blast
  have w0: "writeActuals True [replayTestCase replayNone ?t] = []"
    using c by (simp add: writeActuals_def)
  have h: "?f \<in> set (writeActuals True (map (replayTestCase replayAll) [?t])) \<and>
    (\<forall>t \<in> set [?t]. \<not> wasTested t)" by code_simp
  have g: "\<exists>t \<in> set [?t]. (\<exists>tcr \<in> set (runsOf (parts t)). replayAll tcr \<noteq> None) \<and>
                ?f = (path (replayTestCase replayAll t), ToActual (replayTestCase replayAll t))"
    using C8_to_actual [where f = ?f and w = True and replay = replayAll and tcs = "[?t]",
        THEN conjunct2, THEN conjunct2,
        THEN conjunct2, THEN conjunct2, THEN conjunct2, THEN conjunct2, rule_format, OF h]
    by (rule conjunct2)
  from a b c w0 g show ?thesis by (intro conjI)
qed

subsection \<open>C9: unknown headers are fatal\<close>

text \<open>
  Claim C9: parsing aborts with a panic on every section whose header has none of the
  accepted shapes (a comment \<open>#\<close>, a fixture \<open>/...:\<close>, an invocation \<open>$\<close>, \<open>exitcode:\<close>,
  \<open>stdin\<close>, \<open>stderr\<close>, or a text with the prompt terminator \<open>>\<close>). The switch gives the
  panic "unexpected section" for a section whose header it does not recognise, and a
  list of sections that holds one does not parse; a transcript one of whose sections has
  a header of none of the shapes does not parse; and a transcript whose first line is no
  boundary line panics at its first section, whose header is empty.
\<close>

theorem C9_unrecognized_header_panics:
  "(\<not> recognizedHeader (Name sect) \<longrightarrow>
      parseSection Split Parse st sect =
        Inl (UnexpectedSection (LineNr sect) (Name sect) (Value sect))) \<and>
   ((\<exists>sec \<in> set sects. \<not> recognizedHeader (Name sec)) \<longrightarrow>
      isl (parseSections Split Parse st sects)) \<and>
   ((\<exists>sec \<in> set (SectionParser boundaryRe s). \<not> headerShape (Name sec)) \<longrightarrow>
      isl (parseTestCases Split Parse s)) \<and>
   (s \<noteq> [] \<and> boundaryRe (hd (linesOf s)) = [] \<longrightarrow>
      parseTestCases Split Parse s =
        Inl (UnexpectedSection 1 [] (Value (hd (SectionParser boundaryRe s)))))"
proof (intro conjI impI)
  assume "\<not> recognizedHeader (Name sect)"
  then show "parseSection Split Parse st sect =
        Inl (UnexpectedSection (LineNr sect) (Name sect) (Value sect))"
    by (rule parseSection_unrecognized)
next
  assume "\<exists>sec \<in> set sects. \<not> recognizedHeader (Name sec)"
  then show "isl (parseSections Split Parse st sects)"
    by (rule parseSections_unrecognized)
next
  assume "\<exists>sec \<in> set (SectionParser boundaryRe s). \<not> headerShape (Name sec)"
  then obtain sec where m: "sec \<in> set (SectionParser boundaryRe s)"
    and n: "\<not> headerShape (Name sec)" by blast
  from SectionParser_boundary_names [OF m] n have "\<not> recognizedHeader (Name sec)"
    by (simp add: headerShape_recognized)
  with m have "\<exists>sec \<in> set (SectionParser boundaryRe s). \<not> recognizedHeader (Name sec)"
    by blast
  from parseSections_unrecognized [OF this,
      of Split Parse "\<lparr>te_parts = [], currentTestRun = None, replDepth = 0\<rparr>"]
  obtain p where "parseSections Split Parse
      \<lparr>te_parts = [], currentTestRun = None, replDepth = 0\<rparr> (SectionParser boundaryRe s) = Inl p"
    by (auto simp: isl_def)
  then show "isl (parseTestCases Split Parse s)"
    by (simp add: parseTestCases_def)
next
  assume a: "s \<noteq> [] \<and> boundaryRe (hd (linesOf s)) = []"
  from SectionParser_first [of s boundaryRe] a
  obtain x xs where sp: "SectionParser boundaryRe s = x # xs"
    and ln: "LineNr x = 1" and nm: "Name x = []"
    by (cases "SectionParser boundaryRe s") (auto simp: firstMatch_def)
  have "\<not> recognizedHeader (Name x)" by (simp add: nm recognizedHeader_def)
  from parseSection_unrecognized [OF this]
  show "parseTestCases Split Parse s =
        Inl (UnexpectedSection 1 [] (Value (hd (SectionParser boundaryRe s))))"
    by (simp add: parseTestCases_def sp ln nm)
qed

text \<open>
  The claim at a section with the header \<open>hello\<close>, at a list that holds it, and at the
  transcript that starts with the line \<open>hello\<close>.
\<close>

theorem C9_witness:
  "parseSection splitWords noTokens \<lparr>te_parts = [], currentTestRun = None, replDepth = 0\<rparr>
     \<lparr>LineNr = 3, Name = ''hello'', Value = ''x''\<rparr> = Inl (UnexpectedSection 3 ''hello'' ''x'') \<and>
   isl (parseSections splitWords noTokens \<lparr>te_parts = [], currentTestRun = None, replDepth = 0\<rparr>
     [\<lparr>LineNr = 1, Name = ''#c'', Value = ''''\<rparr>, \<lparr>LineNr = 2, Name = ''hello'', Value = ''x''\<rparr>]) \<and>
   isl (parseTestCases splitWords noTokens (''hello'' @ [NL] @ ''$ echo hi'' @ [NL])) \<and>
   parseTestCases splitWords noTokens (''hello'' @ [NL] @ ''$ echo hi'' @ [NL])
     = Inl (UnexpectedSection 1 [] [])"
proof -
  let ?st = "\<lparr>te_parts = [], currentTestRun = None, replDepth = 0\<rparr>"
  let ?sec = "\<lparr>LineNr = 3, Name = ''hello'', Value = ''x''\<rparr>"
  let ?secs = "[\<lparr>LineNr = 1, Name = ''#c'', Value = ''''\<rparr>, \<lparr>LineNr = 2, Name = ''hello'', Value = ''x''\<rparr>]"
  let ?s = "''hello'' @ [NL] @ ''$ echo hi'' @ [NL]"
  have h1: "\<not> recognizedHeader (Name ?sec)" by code_simp
  have h2: "\<exists>sec \<in> set ?secs. \<not> recognizedHeader (Name sec)" by code_simp
  have h3: "\<exists>sec \<in> set (SectionParser boundaryRe ?s). \<not> headerShape (Name sec)" by code_simp
  have h4: "?s \<noteq> [] \<and> boundaryRe (hd (linesOf ?s)) = []" by code_simp
  have v: "Value (hd (SectionParser boundaryRe ?s)) = []" by code_simp
  have e: "LineNr ?sec = 3" "Name ?sec = ''hello''" "Value ?sec = ''x''" by simp_all
  note T = C9_unrecognized_header_panics [where sect = ?sec and Split = splitWords
      and Parse = noTokens and st = ?st and sects = ?secs and s = ?s]
  have a: "parseSection splitWords noTokens ?st ?sec = Inl (UnexpectedSection 3 ''hello'' ''x'')"
    using T [THEN conjunct1, rule_format, OF h1] unfolding e .
  have b: "isl (parseSections splitWords noTokens ?st ?secs)"
    using T [THEN conjunct2, THEN conjunct1, rule_format, OF h2] .
  have c: "isl (parseTestCases splitWords noTokens ?s)"
    using T [THEN conjunct2, THEN conjunct2, THEN conjunct1, rule_format, OF h3] .
  have d: "parseTestCases splitWords noTokens ?s = Inl (UnexpectedSection 1 [] [])"
    using T [THEN conjunct2, THEN conjunct2, THEN conjunct2, rule_format, OF h4] unfolding v .
  from a b c d show ?thesis by (intro conjI)
qed

subsection \<open>C10: the prompt is written first\<close>

text \<open>
  Claim C10: every call of \<open>Readline\<close> appends the prompt to the captured stdout before
  anything else, also the call made when no turn remains, which then returns \<open>EOF\<close>; so a
  session driven until the turns are exhausted, with no \<open>^D\<close> turn, makes one call more
  than it consumes turns, and the captured stdout holds the prompt of every call: each
  consumed turn's prompt followed by what the turn echoes, and then the last prompt.
\<close>

theorem C10_prompt_first:
  "(\<exists>rest. actualStdoutBuf (snd (Readline tcr prompt complete)) =
            actualStdoutBuf tcr @ prompt @ rest) \<and>
   (length (readlines tcr) \<le> readlinesPos tcr \<longrightarrow>
      Readline tcr prompt complete =
        (('''', Some EOF), tcr\<lparr>actualStdoutBuf := actualStdoutBuf tcr @ prompt\<rparr>)) \<and>
   (readlinesPos tcr \<le> length (readlines tcr) \<and>
    (\<forall>rl \<in> set (drop (readlinesPos tcr) (readlines tcr)). Unescape (rl_input rl) \<noteq> ''^D'') \<and>
    length (readlines tcr) - readlinesPos tcr < length ps \<longrightarrow>
      fst (driveReadline tcr ps complete) = Suc (length (readlines tcr) - readlinesPos tcr) \<and>
      readlinesPos (snd (driveReadline tcr ps complete)) = length (readlines tcr) \<and>
      actualStdoutBuf (snd (driveReadline tcr ps complete)) =
        actualStdoutBuf tcr @
        concat (map (\<lambda>(p, rl). p @ turnEcho complete rl)
                    (zip ps (drop (readlinesPos tcr) (readlines tcr)))) @
        ps ! (length (readlines tcr) - readlinesPos tcr))"
proof (intro conjI impI)
  show "\<exists>rest. actualStdoutBuf (snd (Readline tcr prompt complete)) =
            actualStdoutBuf tcr @ prompt @ rest"
  proof (cases "readlinesPos tcr < length (readlines tcr)")
    case True
    then show ?thesis by (simp add: Readline_consumed_state)
  next
    case False
    then show ?thesis by (simp add: Readline_exhausted)
  qed
next
  assume "length (readlines tcr) \<le> readlinesPos tcr"
  then show "Readline tcr prompt complete =
        (('''', Some EOF), tcr\<lparr>actualStdoutBuf := actualStdoutBuf tcr @ prompt\<rparr>)"
    by (rule Readline_exhausted)
next
  assume a: "readlinesPos tcr \<le> length (readlines tcr) \<and>
    (\<forall>rl \<in> set (drop (readlinesPos tcr) (readlines tcr)). Unescape (rl_input rl) \<noteq> ''^D'') \<and>
    length (readlines tcr) - readlinesPos tcr < length ps"
  note d = driveReadline_exhausts [OF a [THEN conjunct1] a [THEN conjunct2, THEN conjunct1]
      a [THEN conjunct2, THEN conjunct2], of complete]
  from d show "fst (driveReadline tcr ps complete) = Suc (length (readlines tcr) - readlinesPos tcr)"
    by (rule conjunct1)
  from d show "readlinesPos (snd (driveReadline tcr ps complete)) = length (readlines tcr)"
    by (rule conjunct2 [THEN conjunct1])
  from d show "actualStdoutBuf (snd (driveReadline tcr ps complete)) =
        actualStdoutBuf tcr @
        concat (map (\<lambda>(p, rl). p @ turnEcho complete rl)
                    (zip ps (drop (readlinesPos tcr) (readlines tcr)))) @
        ps ! (length (readlines tcr) - readlinesPos tcr)"
    by (rule conjunct2 [THEN conjunct2])
qed

theorem C10_witness:
  "readlinesPos (mkRun [mkTurn ''.a'' [] ''.a'', mkTurn ''.b'' [] ''.b'']) = 0 \<and>
   length (readlines (mkRun [mkTurn ''.a'' [] ''.a'', mkTurn ''.b'' [] ''.b''])) = 2 \<and>
   fst (driveReadline (mkRun [mkTurn ''.a'' [] ''.a'', mkTurn ''.b'' [] ''.b''])
          [''p1> '', ''p2> '', ''p3> '', ''p4> ''] noComplete) = 3 \<and>
   readlinesPos (snd (driveReadline (mkRun [mkTurn ''.a'' [] ''.a'', mkTurn ''.b'' [] ''.b''])
          [''p1> '', ''p2> '', ''p3> '', ''p4> ''] noComplete)) = 2 \<and>
   actualStdoutBuf (snd (driveReadline (mkRun [mkTurn ''.a'' [] ''.a'', mkTurn ''.b'' [] ''.b''])
          [''p1> '', ''p2> '', ''p3> '', ''p4> ''] noComplete))
     = ''p1> .a'' @ [NL] @ ''p2> .b'' @ [NL] @ ''p3> '' \<and>
   Readline (snd (driveReadline (mkRun [mkTurn ''.a'' [] ''.a'', mkTurn ''.b'' [] ''.b''])
          [''p1> '', ''p2> ''] noComplete)) ''p3> '' noComplete
     = (('''', Some EOF),
        (snd (driveReadline (mkRun [mkTurn ''.a'' [] ''.a'', mkTurn ''.b'' [] ''.b''])
          [''p1> '', ''p2> ''] noComplete))\<lparr>actualStdoutBuf := ''p1> .a'' @ [NL] @ ''p2> .b'' @ [NL] @ ''p3> ''\<rparr>)"
proof -
  let ?r = "mkRun [mkTurn ''.a'' [] ''.a'', mkTurn ''.b'' [] ''.b'']"
  let ?ps = "[''p1> '', ''p2> '', ''p3> '', ''p4> '']"
  let ?r2 = "snd (driveReadline ?r [''p1> '', ''p2> ''] noComplete)"
  have p: "readlinesPos ?r = 0" by code_simp
  have l: "length (readlines ?r) = 2" by code_simp
  have h: "readlinesPos ?r \<le> length (readlines ?r) \<and>
    (\<forall>rl \<in> set (drop (readlinesPos ?r) (readlines ?r)). Unescape (rl_input rl) \<noteq> ''^D'') \<and>
    length (readlines ?r) - readlinesPos ?r < length ?ps"
    by code_simp
  have e: "actualStdoutBuf ?r @
        concat (map (\<lambda>(p, rl). p @ turnEcho noComplete rl)
                    (zip ?ps (drop (readlinesPos ?r) (readlines ?r)))) @
        ?ps ! (length (readlines ?r) - readlinesPos ?r) = ''p1> .a'' @ [NL] @ ''p2> .b'' @ [NL] @ ''p3> ''"
    by code_simp
  note T = C10_prompt_first [of ?r _ noComplete ?ps, THEN conjunct2, THEN conjunct2, rule_format, OF h]
  have a: "fst (driveReadline ?r ?ps noComplete) = 3"
    using T [THEN conjunct1] l p by simp
  have b: "readlinesPos (snd (driveReadline ?r ?ps noComplete)) = 2"
    using T [THEN conjunct2, THEN conjunct1] l by simp
  have c: "actualStdoutBuf (snd (driveReadline ?r ?ps noComplete)) = ''p1> .a'' @ [NL] @ ''p2> .b'' @ [NL] @ ''p3> ''"
    using T [THEN conjunct2, THEN conjunct2] e by (simp only:)
  have x: "length (readlines ?r2) \<le> readlinesPos ?r2" by code_simp
  have s2: "actualStdoutBuf ?r2 @ ''p3> '' = ''p1> .a'' @ [NL] @ ''p2> .b'' @ [NL] @ ''p3> ''" by code_simp
  have d: "Readline ?r2 ''p3> '' noComplete = (('''', Some EOF), ?r2\<lparr>actualStdoutBuf := ''p1> .a'' @ [NL] @ ''p2> .b'' @ [NL] @ ''p3> ''\<rparr>)"
    using C10_prompt_first [of ?r2 "''p3> ''" noComplete "[]", THEN conjunct2, THEN conjunct1, rule_format, OF x]
    unfolding s2 .
  from p l a b c d show ?thesis by (intro conjI)
qed

end
